theory Spec2Isabelle
  imports Main "HOL-Library.Sublist" "HOL-Library.Char_ord" "HOL-Library.List_Lexorder"
    "HOL-Library.Multiset"
begin

section \<open>Platform functions used by the site\<close>

text \<open>
  Strings are lists of characters. What the platform computes is a parameter of the
  model: \<open>String.prototype.toLowerCase\<close> is a function \<open>toLowerCase\<close> on strings, and
  the time value of \<open>new Date(s)\<close> is a function \<open>Date\<close> that gives the milliseconds, or
  \<open>None\<close> for an invalid date. Every statement below holds for all such functions.
\<close>

text \<open>\<open>s.includes(t)\<close>: \<open>t\<close> occurs in \<open>s\<close> as a contiguous run of characters.\<close>

fun str_includes :: "string \<Rightarrow> string \<Rightarrow> bool" where
  "str_includes [] t = (t = [])"
| "str_includes (c # cs) t = (prefix t (c # cs) \<or> str_includes cs t)"

text \<open>
  \<open>Array.prototype.sort(cmp)\<close>. ECMAScript requires the sort to be stable; for a
  consistent comparator the result of a stable sort is unique, and it is computed here
  by insertion from the right. A comparator that returns \<open>NaN\<close> (here \<open>None\<close>, read as
  \<open>+0\<close>) is not consistent, and ECMAScript leaves the order to the implementation: the
  model then returns one permutation of the input, an engine possibly another. Where a
  statement below depends on the order, it is for valid dates, whose comparators never
  return \<open>NaN\<close>; everything else uses only that the result is a permutation.
\<close>

definition cmp_value :: "int option \<Rightarrow> int" where
  "cmp_value v = (case v of None \<Rightarrow> 0 | Some n \<Rightarrow> n)"

fun insert_cmp :: "('a \<Rightarrow> 'a \<Rightarrow> int option) \<Rightarrow> 'a \<Rightarrow> 'a list \<Rightarrow> 'a list" where
  "insert_cmp cmp x [] = [x]"
| "insert_cmp cmp x (y # ys) =
     (if cmp_value (cmp x y) \<le> 0 then x # y # ys else y # insert_cmp cmp x ys)"

definition array_sort :: "('a \<Rightarrow> 'a \<Rightarrow> int option) \<Rightarrow> 'a list \<Rightarrow> 'a list" where
  "array_sort cmp xs = foldr (insert_cmp cmp) xs []"

text \<open>
  \<open>new Date(x) - new Date(y)\<close>: the difference of the time values, or \<open>NaN\<close> when
  one of the dates is invalid.
\<close>

definition date_diff :: "(string \<Rightarrow> int option) \<Rightarrow> string \<Rightarrow> string \<Rightarrow> int option" where
  "date_diff Date x y =
     (case (Date x, Date y) of (Some m, Some n) \<Rightarrow> Some (m - n) | _ \<Rightarrow> None)"

section \<open>Data model\<close>

text \<open>
  A gallery image; \<open>isPlaceholder\<close> is the flag that \<open>preloadGalleryImages\<close> sets, absent
  (\<open>False\<close>) in the post data.
\<close>

record gallery_image =
  src :: string
  alt :: "string option"
  caption :: "string option"
  isPlaceholder :: bool

text \<open>
  A gallery property as the post data may carry it, when it is truthy: an array whose
  entries are image objects or \<open>null\<close>, or a value that is not an array and so has no
  \<open>forEach\<close>. The post data is parsed from the network and is not validated.
\<close>

datatype gallery_json = NotAnArray | GalleryArray "gallery_image option list"

text \<open>
  A post. An optional property is \<open>None\<close> when it is absent or falsy; \<open>images_gallery\<close>
  is \<open>post.images?.gallery\<close>.
\<close>

record post =
  post_id :: string
  title :: string
  date :: string
  shortDescription :: "string option"
  tags :: "string list option"
  image :: "string option"
  images_gallery :: "gallery_json option"
  gallery :: "gallery_json option"

datatype sort_order = Newest | Oldest

datatype view_mode = Grid | ListView

record filter_state =
  searchTerm :: string
  selectedTags :: "string list"
  sortOrder :: sort_order
  viewMode :: view_mode

text \<open>
  The cache key is \<open>JSON.stringify({search, tags, sort})\<close>, or the empty string when no
  key is stored. The serialization of an object of this fixed shape determines its three
  fields and is never empty, so a key is represented by the fields it serializes.
\<close>

datatype filter_key = NoKey | FilterKey string "string list" sort_order

record post_filter_ui =
  posts :: "post list"
  filteredPosts :: "post list"
  allTags :: "string list"
  filterState :: filter_state
  uiCache :: "string option"
  lastFilterKey :: filter_key

section \<open>PostFilterUI\<close>

definition new_PostFilterUI :: post_filter_ui where
  "new_PostFilterUI =
     \<lparr>posts = [], filteredPosts = [], allTags = [],
      filterState = \<lparr>searchTerm = [], selectedTags = [], sortOrder = Newest, viewMode = Grid\<rparr>,
      uiCache = None, lastFilterKey = NoKey\<rparr>"

definition extractAllTags :: "post_filter_ui \<Rightarrow> post_filter_ui" where
  "extractAllTags st =
     st\<lparr>allTags :=
          sort (remdups (concat (map (\<lambda>p. case tags p of None \<Rightarrow> [] | Some ts \<Rightarrow> ts)
                                     (posts st))))\<rparr>"

text \<open>The callback of the search filter (source lines 57-62).\<close>

definition searchFilter :: "(string \<Rightarrow> string) \<Rightarrow> string \<Rightarrow> post \<Rightarrow> bool" where
  "searchFilter toLowerCase searchLower p =
     (let titleMatch = str_includes (toLowerCase (title p)) searchLower;
          descMatch = (case shortDescription p of
                         None \<Rightarrow> False
                       | Some d \<Rightarrow> str_includes (toLowerCase d) searchLower);
          tagMatch = (case tags p of
                        None \<Rightarrow> False
                      | Some ts \<Rightarrow> list_ex (\<lambda>tag. str_includes (toLowerCase tag) searchLower) ts)
      in titleMatch \<or> descMatch \<or> tagMatch)"

text \<open>The callback of the tag filter (source lines 67-69).\<close>

definition tagFilter :: "string list \<Rightarrow> post \<Rightarrow> bool" where
  "tagFilter sel p =
     (case tags p of
        None \<Rightarrow> False
      | Some ts \<Rightarrow> list_ex (\<lambda>tag. tag \<in> set ts) sel)"

definition by_newest :: "(string \<Rightarrow> int option) \<Rightarrow> post \<Rightarrow> post \<Rightarrow> int option" where
  "by_newest Date a b = date_diff Date (date b) (date a)"

definition by_oldest :: "(string \<Rightarrow> int option) \<Rightarrow> post \<Rightarrow> post \<Rightarrow> int option" where
  "by_oldest Date a b = date_diff Date (date a) (date b)"

text \<open>
  The recomputation of \<open>filterAndSortPosts\<close> (source lines 52-77), on the search term,
  the selected tags and the sort order it reads from the filter state.
\<close>

definition computeFiltered ::
  "(string \<Rightarrow> int option) \<Rightarrow> (string \<Rightarrow> string) \<Rightarrow> post list \<Rightarrow> string \<Rightarrow> string list \<Rightarrow> sort_order \<Rightarrow> post list" where
  "computeFiltered Date toLowerCase ps search sel order =
     (let result = ps;
          result = (if search \<noteq> [] then filter (searchFilter toLowerCase (toLowerCase search)) result
                    else result);
          result = (if length sel > 0 then filter (tagFilter sel) result else result)
      in if order = Newest then array_sort (by_newest Date) result
         else array_sort (by_oldest Date) result)"

text \<open>
  Building the key sorts the selected tags in place (source line 42), so the state
  that the rest of the call sees has them sorted.
\<close>

definition sortSelectedTags :: "post_filter_ui \<Rightarrow> post_filter_ui" where
  "sortSelectedTags st =
     st\<lparr>filterState := (filterState st)\<lparr>selectedTags := sort (selectedTags (filterState st))\<rparr>\<rparr>"

definition filterKey :: "post_filter_ui \<Rightarrow> filter_key" where
  "filterKey st =
     FilterKey (searchTerm (filterState st)) (sort (selectedTags (filterState st)))
       (sortOrder (filterState st))"

text \<open>The test of source line 47.\<close>

definition cacheHit :: "post_filter_ui \<Rightarrow> bool" where
  "cacheHit st \<longleftrightarrow> filterKey st = lastFilterKey st \<and> length (filteredPosts st) > 0"

definition filterAndSortPosts ::
  "(string \<Rightarrow> int option) \<Rightarrow> (string \<Rightarrow> string) \<Rightarrow> post_filter_ui \<Rightarrow> post list \<times> post_filter_ui" where
  "filterAndSortPosts Date toLowerCase st =
     (let key = filterKey st;
          st1 = sortSelectedTags st
      in if cacheHit st then (filteredPosts st1, st1)
         else
           let st2 = st1\<lparr>lastFilterKey := key\<rparr>;
               result = computeFiltered Date toLowerCase (posts st2) (searchTerm (filterState st2))
                          (selectedTags (filterState st2)) (sortOrder (filterState st2))
           in (result, st2\<lparr>filteredPosts := result\<rparr>))"

definition init ::
  "(string \<Rightarrow> int option) \<Rightarrow> (string \<Rightarrow> string) \<Rightarrow> post list \<Rightarrow> post_filter_ui \<Rightarrow> post_filter_ui" where
  "init Date toLowerCase ps st = snd (filterAndSortPosts Date toLowerCase (extractAllTags (st\<lparr>posts := ps\<rparr>)))"

definition resetFilters ::
  "(string \<Rightarrow> int option) \<Rightarrow> (string \<Rightarrow> string) \<Rightarrow> post_filter_ui \<Rightarrow> post_filter_ui" where
  "resetFilters Date toLowerCase st =
     snd (filterAndSortPosts Date toLowerCase
            (st\<lparr>filterState := (filterState st)\<lparr>searchTerm := [], selectedTags := [],
                                                sortOrder := Newest\<rparr>,
                lastFilterKey := NoKey\<rparr>))"

definition clearCache :: "post_filter_ui \<Rightarrow> post_filter_ui" where
  "clearCache st = st\<lparr>uiCache := None, lastFilterKey := NoKey\<rparr>"

text \<open>
  The listeners installed by \<open>setupListeners\<close>: each changes one field of the filter
  state; all but the view buttons then run \<open>applyFilters\<close>, that is
  \<open>filterAndSortPosts\<close>.
\<close>

definition onSearchInput ::
  "(string \<Rightarrow> int option) \<Rightarrow> (string \<Rightarrow> string) \<Rightarrow> string \<Rightarrow> post_filter_ui \<Rightarrow> post_filter_ui" where
  "onSearchInput Date toLowerCase v st =
     snd (filterAndSortPosts Date toLowerCase (st\<lparr>filterState := (filterState st)\<lparr>searchTerm := v\<rparr>\<rparr>))"

definition onTagChange ::
  "(string \<Rightarrow> int option) \<Rightarrow> (string \<Rightarrow> string) \<Rightarrow> string \<Rightarrow> bool \<Rightarrow> post_filter_ui \<Rightarrow> post_filter_ui" where
  "onTagChange Date toLowerCase tag checked st =
     (let sel = selectedTags (filterState st);
          sel' = (if checked then (if tag \<in> set sel then sel else sel @ [tag])
                  else filter (\<lambda>t. t \<noteq> tag) sel)
      in snd (filterAndSortPosts Date toLowerCase (st\<lparr>filterState := (filterState st)\<lparr>selectedTags := sel'\<rparr>\<rparr>)))"

definition onSortChange ::
  "(string \<Rightarrow> int option) \<Rightarrow> (string \<Rightarrow> string) \<Rightarrow> sort_order \<Rightarrow> post_filter_ui \<Rightarrow> post_filter_ui" where
  "onSortChange Date toLowerCase v st =
     snd (filterAndSortPosts Date toLowerCase (st\<lparr>filterState := (filterState st)\<lparr>sortOrder := v\<rparr>\<rparr>))"

definition onViewButton :: "view_mode \<Rightarrow> post_filter_ui \<Rightarrow> post_filter_ui" where
  "onViewButton v st = st\<lparr>filterState := (filterState st)\<lparr>viewMode := v\<rparr>\<rparr>"

text \<open>
  The states of an instance of \<open>PostFilterUI\<close> whose posts sequence is \<open>ps\<close>: the
  instance was created and initialised with \<open>ps\<close>, and then driven by its listeners and
  methods. \<open>renderPostsList\<close> initialises the instance again with the same sequence each
  time the list view is shown. The cache key does not cover the posts sequence, so a
  different sequence is installed after \<open>clearCache\<close>, the method the source provides for
  a change of the posts data.
\<close>

inductive reachable ::
  "(string \<Rightarrow> int option) \<Rightarrow> (string \<Rightarrow> string) \<Rightarrow> post list \<Rightarrow> post_filter_ui \<Rightarrow> bool"
  for Date :: "string \<Rightarrow> int option" and toLowerCase :: "string \<Rightarrow> string" where
  reach_init: "reachable Date toLowerCase ps (init Date toLowerCase ps new_PostFilterUI)"
| reach_again: "reachable Date toLowerCase ps st \<Longrightarrow> reachable Date toLowerCase ps (init Date toLowerCase ps st)"
| reach_cleared: "reachable Date toLowerCase qs st \<Longrightarrow> reachable Date toLowerCase ps (init Date toLowerCase ps (clearCache st))"
| reach_filter: "reachable Date toLowerCase ps st \<Longrightarrow> reachable Date toLowerCase ps (snd (filterAndSortPosts Date toLowerCase st))"
| reach_search: "reachable Date toLowerCase ps st \<Longrightarrow> reachable Date toLowerCase ps (onSearchInput Date toLowerCase v st)"
| reach_tag: "reachable Date toLowerCase ps st \<Longrightarrow> reachable Date toLowerCase ps (onTagChange Date toLowerCase tag checked st)"
| reach_sort: "reachable Date toLowerCase ps st \<Longrightarrow> reachable Date toLowerCase ps (onSortChange Date toLowerCase order st)"
| reach_view: "reachable Date toLowerCase ps st \<Longrightarrow> reachable Date toLowerCase ps (onViewButton vm st)"
| reach_reset: "reachable Date toLowerCase ps st \<Longrightarrow> reachable Date toLowerCase ps (resetFilters Date toLowerCase st)"
| reach_clear: "reachable Date toLowerCase ps st \<Longrightarrow> reachable Date toLowerCase ps (clearCache st)"
| reach_state: "reachable Date toLowerCase ps st \<Longrightarrow> reachable Date toLowerCase ps (st\<lparr>filterState := fs\<rparr>)"

section \<open>Router\<close>

text \<open>
  A route is the pair that \<open>getCurrentRoute\<close> returns; \<open>postId = None\<close> is \<open>null\<close>.
\<close>

record route =
  view :: string
  postId :: "string option"

text \<open>
  What \<open>renderContent\<close> puts into the content element: the home view, the post list
  or the detail view of a post id.
\<close>

datatype rendered = RenderHome | RenderPostsList | RenderPostDetail string

text \<open>
  The state of the router: the value of \<open>window.location.hash\<close> (empty, or \<open>#\<close>
  followed by the fragment), the globals \<open>currentView\<close> and \<open>navigationHistory\<close>, and the
  view that \<open>renderContent\<close> rendered last.
\<close>

record nav_state =
  location_hash :: string
  currentView :: string
  navigationHistory :: "route list"
  content :: rendered

text \<open>
  \<open>s.split(sep)\<close> for a one-character separator; the result is never empty.
\<close>

fun str_split :: "char \<Rightarrow> string \<Rightarrow> string list" where
  "str_split sep [] = [[]]"
| "str_split sep (c # cs) =
     (if c = sep then [] # str_split sep cs
      else (case str_split sep cs of [] \<Rightarrow> [[c]] | p # ps \<Rightarrow> (c # p) # ps))"

text \<open>
  Assigning \<open>v\<close> to \<open>window.location.hash\<close>: one leading \<open>#\<close> of \<open>v\<close> is dropped and
  the URL parser percent-encodes the rest into the fragment; the getter then returns the
  empty string for an empty fragment and \<open>#\<close> followed by the fragment otherwise. The
  parser's encoding is the parameter \<open>encode\<close>: it rewrites a space to \<open>%20\<close>, for
  example, and leaves letters, digits and the slash as they are.
\<close>

definition set_hash :: "(string \<Rightarrow> string) \<Rightarrow> string \<Rightarrow> string" where
  "set_hash encode v =
     (let input = (case v of [] \<Rightarrow> [] | c # cs \<Rightarrow> if c = CHR ''#'' then cs else v);
          fragment = encode input
      in if fragment = [] then [] else CHR ''#'' # fragment)"

text \<open>
  \<open>parts[0] || 'home'\<close> and \<open>parts[1] || null\<close>: an empty string is falsy, and so is a
  missing second part.
\<close>

definition getCurrentRoute :: "string \<Rightarrow> route" where
  "getCurrentRoute h =
     (let hash = drop 1 h;
          parts = str_split CHR ''/'' hash
      in \<lparr>view = (case parts of [] \<Rightarrow> ''home'' | p0 # _ \<Rightarrow> if p0 \<noteq> [] then p0 else ''home''),
          postId = (case parts of p0 # p1 # _ \<Rightarrow> if p1 \<noteq> [] then Some p1 else None | _ \<Rightarrow> None)\<rparr>)"

definition renderContent :: "string \<Rightarrow> rendered" where
  "renderContent h =
     (let route = getCurrentRoute h
      in if view route = ''home'' then RenderHome
         else if view route = ''posts'' then
           (case postId route of
              Some pid \<Rightarrow> if pid \<noteq> [] then RenderPostDetail pid else RenderPostsList
            | None \<Rightarrow> RenderPostsList)
         else RenderHome)"

text \<open>
  The string \<open>view + (postId ? '/' + postId : '')\<close> that \<open>navigateTo\<close> and \<open>goBack\<close>
  assign to the hash.
\<close>

definition hash_of :: "string \<Rightarrow> string option \<Rightarrow> string" where
  "hash_of v pid = v @ (case pid of Some p \<Rightarrow> if p \<noteq> [] then CHR ''/'' # p else [] | None \<Rightarrow> [])"

text \<open>
  \<open>push\<close> appends at the end and \<open>shift\<close> removes the first entry.
\<close>

definition navigateTo ::
  "(string \<Rightarrow> string) \<Rightarrow> string \<Rightarrow> string option \<Rightarrow> nav_state \<Rightarrow> nav_state" where
  "navigateTo encode v pid st =
     (let currentRoute = getCurrentRoute (location_hash st);
          history = navigationHistory st @ [currentRoute];
          history = (if length history > 10 then tl history else history);
          h = set_hash encode (hash_of v pid)
      in st\<lparr>navigationHistory := history, currentView := v, location_hash := h,
            content := renderContent h\<rparr>)"

text \<open>
  \<open>pop\<close> removes the last entry.
\<close>

definition goBack :: "(string \<Rightarrow> string) \<Rightarrow> nav_state \<Rightarrow> nav_state" where
  "goBack encode st =
     (if length (navigationHistory st) > 0 then
        let previousState = last (navigationHistory st);
            h = set_hash encode (hash_of (view previousState) (postId previousState))
        in st\<lparr>navigationHistory := butlast (navigationHistory st),
              currentView := view previousState, location_hash := h,
              content := renderContent h\<rparr>
      else navigateTo encode ''home'' None st)"

datatype nav_op = NavigateTo string "string option" | GoBack

fun nav_step :: "(string \<Rightarrow> string) \<Rightarrow> nav_state \<Rightarrow> nav_op \<Rightarrow> nav_state" where
  "nav_step encode st (NavigateTo v pid) = navigateTo encode v pid st"
| "nav_step encode st GoBack = goBack encode st"

definition run_nav :: "(string \<Rightarrow> string) \<Rightarrow> nav_op list \<Rightarrow> nav_state \<Rightarrow> nav_state" where
  "run_nav encode ops st = foldl (nav_step encode) st ops"

section \<open>Loader\<close>

text \<open>
  An entry of \<open>posts/index.json\<close>.
\<close>

record index_entry =
  entry_id :: string
  entry_title :: string
  entry_date :: string
  entry_tags :: "string list"

text \<open>
  What the network answers, as far as \<open>loadPosts\<close> sees it: the parsed index (or
  \<open>None\<close> when the fetch or the parse of \<open>posts/index.json\<close> fails), the parsed post
  behind a URL (or \<open>None\<close> when its fetch or parse fails, or yields \<open>null\<close>), and the
  parsed legacy file \<open>posts.json\<close>.
\<close>

record network =
  index_json :: "index_entry list option"
  post_json :: "string \<Rightarrow> post option"
  legacy_json :: "post list option"

definition post_url :: "index_entry \<Rightarrow> string" where
  "post_url postMeta = ''posts/'' @ entry_id postMeta @ ''.json''"

text \<open>
  \<open>preloadPostImages\<close> walks the posts and hands every image source to \<open>preloadImage\<close>,
  which starts the load and never throws. The walk itself is synchronous and throws a
  TypeError on a gallery that is not an array and on a gallery entry that is \<open>null\<close>.
  The model returns the error, or the sources handed over.
\<close>

datatype js_error = TypeError

definition gallery_sources :: "gallery_json \<Rightarrow> js_error + string list" where
  "gallery_sources g =
     (case g of
        NotAnArray \<Rightarrow> Inl TypeError
      | GalleryArray imgs \<Rightarrow>
          if None \<in> set imgs then Inl TypeError
          else Inr (map src (List.map_filter (\<lambda>img. img) imgs)))"

definition post_image_sources :: "post \<Rightarrow> js_error + string list" where
  "post_image_sources p =
     (let thumbnail = (case image p of Some i \<Rightarrow> if i \<noteq> [] then [i] else [] | None \<Rightarrow> [])
      in case images_gallery p of
           Some g \<Rightarrow> map_sum (\<lambda>e. e) (\<lambda>srcs. thumbnail @ srcs) (gallery_sources g)
         | None \<Rightarrow>
             (case gallery p of
                Some g \<Rightarrow> map_sum (\<lambda>e. e) (\<lambda>srcs. thumbnail @ srcs) (gallery_sources g)
              | None \<Rightarrow> Inr thumbnail))"

fun preloadPostImages :: "post list \<Rightarrow> js_error + string list" where
  "preloadPostImages [] = Inr []"
| "preloadPostImages (p # ps) =
     (case post_image_sources p of
        Inl e \<Rightarrow> Inl e
      | Inr srcs \<Rightarrow>
          (case preloadPostImages ps of
             Inl e \<Rightarrow> Inl e
           | Inr others \<Rightarrow> Inr (srcs @ others)))"

text \<open>
  \<open>loadPosts\<close> returns a posts sequence and assigns the global \<open>posts\<close>; the model
  returns both, the returned sequence first. \<open>legacyFallback\<close> is the \<open>catch\<close> block of
  source lines 427-439: it is entered when the index fails, and also when
  \<open>preloadPostImages\<close>, called inside the \<open>try\<close> block after the global was assigned,
  throws. When the legacy file fails too, the global keeps the value it has by then.
\<close>

definition legacyFallback :: "network \<Rightarrow> post list \<Rightarrow> post list \<times> post list" where
  "legacyFallback net posts_global =
     (case legacy_json net of
        Some ps \<Rightarrow> (ps, ps)
      | None \<Rightarrow> ([], posts_global))"

definition loadPosts ::
  "(string \<Rightarrow> int option) \<Rightarrow> network \<Rightarrow> post list \<Rightarrow> post list \<times> post list" where
  "loadPosts Date net posts_global =
     (case index_json net of
        Some postIndex \<Rightarrow>
          let loaded = map (\<lambda>postMeta. post_json net (post_url postMeta)) postIndex;
              sorted_posts = array_sort (by_newest Date) (List.map_filter (\<lambda>p. p) loaded)
          in (case preloadPostImages sorted_posts of
                Inr imagesToLoad \<Rightarrow> (sorted_posts, sorted_posts)
              | Inl error \<Rightarrow> legacyFallback net sorted_posts)
      | None \<Rightarrow> legacyFallback net posts_global)"

section \<open>Gallery viewer of PostRenderer\<close>

text \<open>
  The fields of \<open>PostRenderer\<close> that the gallery uses, whether the modal has the class
  \<open>hidden\<close>, the image shown in the element \<open>gallery-img\<close>, and whether
  \<open>updateGalleryDisplay\<close> raised a TypeError on an index outside the navigable images.
\<close>

record post_renderer =
  galleryImages :: "gallery_image list"
  loadedGalleryImages :: "gallery_image list"
  currentGalleryImages :: "gallery_image list"
  currentImageIndex :: int
  imageLoadStatus :: "string \<rightharpoonup> bool"
  modal_hidden :: bool
  displayed :: "gallery_image option"
  threw :: bool

definition placeholderImage :: string where
  "placeholderImage = ''/img/placeholder.png''"

definition new_PostRenderer :: post_renderer where
  "new_PostRenderer =
     \<lparr>galleryImages = [], loadedGalleryImages = [], currentGalleryImages = [],
      currentImageIndex = 0, imageLoadStatus = Map.empty, modal_hidden = True,
      displayed = None, threw = False\<rparr>"

text \<open>
  The remainder operator \<open>%\<close>, whose result has the sign of the dividend.
\<close>

definition js_rem :: "int \<Rightarrow> int \<Rightarrow> int" where
  "js_rem a n = (if 0 \<le> a then a mod \<bar>n\<bar> else - ((- a) mod \<bar>n\<bar>))"

text \<open>
  The callback of source lines 296-304: a failed image becomes a placeholder.
\<close>

definition substitute :: "gallery_image \<times> bool \<Rightarrow> gallery_image" where
  "substitute result =
     (case result of (img, loaded) \<Rightarrow>
        if \<not> loaded then
          img\<lparr>src := placeholderImage,
              alt := Some (case alt img of
                             Some a \<Rightarrow> if a \<noteq> [] then a else ''Image not available''
                           | None \<Rightarrow> ''Image not available''),
              isPlaceholder := True\<rparr>
        else img)"

text \<open>
  \<open>checkImageLoads\<close> is a parameter: whether the image behind a URL loads within the
  five seconds of the timeout.
\<close>

definition preloadGalleryImages ::
  "(string \<Rightarrow> bool) \<Rightarrow> string option \<Rightarrow> post_renderer \<Rightarrow> post_renderer" where
  "preloadGalleryImages checkImageLoads thumbnailSrc st =
     (if length (galleryImages st) = 0 then st\<lparr>loadedGalleryImages := []\<rparr>
      else
        let st1 = (case thumbnailSrc of
                     Some t \<Rightarrow>
                       if t \<noteq> [] then
                         st\<lparr>imageLoadStatus := (imageLoadStatus st)(t \<mapsto> checkImageLoads t)\<rparr>
                       else st
                   | None \<Rightarrow> st);
            results = map (\<lambda>img. (img, checkImageLoads (src img))) (galleryImages st1)
        in st1\<lparr>loadedGalleryImages := map substitute results,
               imageLoadStatus :=
                 foldl (\<lambda>m (img, loaded). m(src img \<mapsto> loaded)) (imageLoadStatus st1) results\<rparr>)"

text \<open>
  \<open>this.currentGalleryImages || this.loadedGalleryImages\<close> is always the first
  operand, since an array is truthy, also when empty.
\<close>

definition updateGalleryDisplay :: "post_renderer \<Rightarrow> post_renderer" where
  "updateGalleryDisplay st =
     (let images = currentGalleryImages st
      in if length images = 0 then st
         else if 0 \<le> currentImageIndex st \<and> currentImageIndex st < int (length images) then
           st\<lparr>displayed := Some (images ! nat (currentImageIndex st))\<rparr>
         else st\<lparr>threw := True\<rparr>)"

definition openGallery :: "int \<Rightarrow> post_renderer \<Rightarrow> post_renderer" where
  "openGallery startIndex st =
     (let viewableImages = filter (\<lambda>img. \<not> isPlaceholder img) (loadedGalleryImages st)
      in if length viewableImages = 0 then st
         else updateGalleryDisplay
                (st\<lparr>currentImageIndex := max 0 (min startIndex (int (length viewableImages) - 1)),
                    currentGalleryImages := viewableImages,
                    modal_hidden := False\<rparr>))"

definition nextImage :: "post_renderer \<Rightarrow> post_renderer" where
  "nextImage st =
     (let images = currentGalleryImages st
      in if length images = 0 then st
         else updateGalleryDisplay
                (st\<lparr>currentImageIndex := js_rem (currentImageIndex st + 1) (int (length images))\<rparr>))"

definition previousImage :: "post_renderer \<Rightarrow> post_renderer" where
  "previousImage st =
     (let images = currentGalleryImages st
      in if length images = 0 then st
         else updateGalleryDisplay
                (st\<lparr>currentImageIndex :=
                      js_rem (currentImageIndex st - 1 + int (length images)) (int (length images))\<rparr>))"

datatype viewer_op = NextImage | PreviousImage

fun viewer_step :: "post_renderer \<Rightarrow> viewer_op \<Rightarrow> post_renderer" where
  "viewer_step st NextImage = nextImage st"
| "viewer_step st PreviousImage = previousImage st"

definition run_viewer :: "viewer_op list \<Rightarrow> post_renderer \<Rightarrow> post_renderer" where
  "run_viewer ops st = foldl viewer_step st ops"

section \<open>Notions of the specification\<close>

text \<open>
  The time value of a post's date; it is used only where the date is valid.
\<close>

definition dateValue :: "(string \<Rightarrow> int option) \<Rightarrow> post \<Rightarrow> int" where
  "dateValue Date p = cmp_value (Date (date p))"

definition tag_set :: "post \<Rightarrow> string set" where
  "tag_set p = (case tags p of None \<Rightarrow> {} | Some ts \<Rightarrow> set ts)"

text \<open>
  Case-insensitive substring match: the term occurs in the text as a contiguous run of
  characters, when case is ignored.
\<close>

definition ci_substring :: "(string \<Rightarrow> string) \<Rightarrow> string \<Rightarrow> string \<Rightarrow> bool" where
  "ci_substring toLowerCase term text \<longleftrightarrow> sublist (toLowerCase term) (toLowerCase text)"

text \<open>
  The search predicate of the specification: the term is empty, or it matches the title,
  the short description or some tag.
\<close>

definition matchesSearch :: "(string \<Rightarrow> string) \<Rightarrow> string \<Rightarrow> post \<Rightarrow> bool" where
  "matchesSearch toLowerCase term p \<longleftrightarrow>
     term = [] \<or> ci_substring toLowerCase term (title p)
     \<or> (case shortDescription p of None \<Rightarrow> False | Some d \<Rightarrow> ci_substring toLowerCase term d)
     \<or> (\<exists>tag \<in> tag_set p. ci_substring toLowerCase term tag)"

text \<open>
  The tag predicate of the specification: nothing is selected, or the post's tag set
  intersects the selected tags.
\<close>

definition matchesTags :: "string list \<Rightarrow> post \<Rightarrow> bool" where
  "matchesTags sel p \<longleftrightarrow> set sel = {} \<or> tag_set p \<inter> set sel \<noteq> {}"

text \<open>
  Both filters of the recomputation as one predicate, and the posts that pass it.
\<close>

definition passes :: "(string \<Rightarrow> string) \<Rightarrow> string \<Rightarrow> string list \<Rightarrow> post \<Rightarrow> bool" where
  "passes toLowerCase search sel p \<longleftrightarrow>
     (search = [] \<or> searchFilter toLowerCase (toLowerCase search) p) \<and> (sel = [] \<or> tagFilter sel p)"

definition filtered ::
  "(string \<Rightarrow> string) \<Rightarrow> post list \<Rightarrow> string \<Rightarrow> string list \<Rightarrow> post list" where
  "filtered toLowerCase ps search sel = filter (passes toLowerCase search sel) ps"

text \<open>
  The cache is coherent: a stored key belongs to the stored result on the current posts.
\<close>

definition cache_inv ::
  "(string \<Rightarrow> int option) \<Rightarrow> (string \<Rightarrow> string) \<Rightarrow> post list \<Rightarrow> post_filter_ui \<Rightarrow> bool" where
  "cache_inv Date toLowerCase ps st \<longleftrightarrow>
     posts st = ps \<and>
     (\<forall>s ts order. lastFilterKey st = FilterKey s ts order \<longrightarrow>
        filteredPosts st = computeFiltered Date toLowerCase ps s ts order)"

text \<open>
  The routes that a sequence of calls of \<open>navigateTo\<close> pushes, oldest first.
\<close>

fun pushed :: "(string \<Rightarrow> string) \<Rightarrow> nav_state \<Rightarrow> (string \<times> string option) list \<Rightarrow> route list" where
  "pushed encode st [] = []"
| "pushed encode st ((v, pid) # navs) = getCurrentRoute (location_hash st) # pushed encode (navigateTo encode v pid st) navs"

definition navigate_all ::
  "(string \<Rightarrow> string) \<Rightarrow> (string \<times> string option) list \<Rightarrow> nav_state \<Rightarrow> nav_state" where
  "navigate_all encode navs st = run_nav encode (map (\<lambda>(v, pid). NavigateTo v pid) navs) st"

text \<open>
  A component of the fragment grammar: not empty, without a slash.
\<close>

definition plain :: "string \<Rightarrow> bool" where
  "plain s \<longleftrightarrow> s \<noteq> [] \<and> CHR ''/'' \<notin> set s"


text \<open>
  The posts of the index whose own fetch and parse succeeded, in index order.
\<close>

definition fetched :: "network \<Rightarrow> index_entry list \<Rightarrow> post list" where
  "fetched net idx = List.map_filter (\<lambda>e. post_json net (post_url e)) idx"

text \<open>
  The image data of a post is well-formed: the walk of \<open>preloadPostImages\<close> does not
  throw on it.
\<close>

definition media_ok :: "post \<Rightarrow> bool" where
  "media_ok p \<longleftrightarrow> (case post_image_sources p of Inl e \<Rightarrow> False | Inr srcs \<Rightarrow> True)"

text \<open>
  The viewer is open on the navigable images \<open>vs\<close> and shows the one at the current
  index.
\<close>

definition viewer_inv :: "gallery_image list \<Rightarrow> post_renderer \<Rightarrow> bool" where
  "viewer_inv vs st \<longleftrightarrow>
     currentGalleryImages st = vs \<and> \<not> modal_hidden st \<and> \<not> threw st
     \<and> 0 \<le> currentImageIndex st \<and> currentImageIndex st < int (length vs)
     \<and> displayed st = Some (vs ! nat (currentImageIndex st))"

section \<open>Sample data\<close>

text \<open>
  On strings of ASCII characters \<open>toLowerCase\<close> maps \<open>A\<close>..\<open>Z\<close> to \<open>a\<close>..\<open>z\<close> and
  leaves every other character alone; the sample data below is ASCII.
\<close>

definition asciiLowerCase_char :: "char \<Rightarrow> char" where
  "asciiLowerCase_char c =
     (case map_of (zip ''ABCDEFGHIJKLMNOPQRSTUVWXYZ'' ''abcdefghijklmnopqrstuvwxyz'') c of
        Some l \<Rightarrow> l
      | None \<Rightarrow> c)"

definition asciiLowerCase :: "string \<Rightarrow> string" where
  "asciiLowerCase s = map asciiLowerCase_char s"

text \<open>
  The time values of the two dates of the scenario, and two posts with these dates.
\<close>

definition sampleDate :: "string \<Rightarrow> int option" where
  "sampleDate =
     map_of [(''2024-01-01'', 1704067200000), (''2024-03-01'', 1709251200000),
             (''2024-06-01'', 1717200000000)]"

definition post_a :: post where
  "post_a = \<lparr>post_id = ''a'', title = ''Alpha'', date = ''2024-01-01'',
             shortDescription = None, tags = Some [''x''],
             image = Some ''img/a.png'', images_gallery = None, gallery = None\<rparr>"

definition post_b :: post where
  "post_b = \<lparr>post_id = ''b'', title = ''Beta'', date = ''2024-06-01'',
             shortDescription = Some ''second'', tags = Some [''y''],
             image = None, images_gallery = None,
             gallery = Some (GalleryArray
               [Some \<lparr>src = ''img/b1.png'', alt = None, caption = None, isPlaceholder = False\<rparr>])\<rparr>"

definition post_c :: post where
  "post_c = \<lparr>post_id = ''c'', title = ''Gamma'', date = ''2024-03-01'',
             shortDescription = None, tags = None,
             image = None, images_gallery = None, gallery = None\<rparr>"

text \<open>
  Post a with a gallery property that is a string instead of an array.
\<close>

definition post_bad :: post where
  "post_bad = post_a\<lparr>gallery := Some NotAnArray\<rparr>"

definition sample_ui :: post_filter_ui where
  "sample_ui = init sampleDate asciiLowerCase [post_a, post_b] new_PostFilterUI"

text \<open>
  The sample instance, initialised once more, with post c alone.
\<close>

definition reinit_ui :: post_filter_ui where
  "reinit_ui = init sampleDate asciiLowerCase [post_c] sample_ui"

definition search_ui :: post_filter_ui where
  "search_ui = onSearchInput sampleDate asciiLowerCase ''BET'' sample_ui"

definition zzz_ui :: post_filter_ui where
  "zzz_ui =
     \<lparr>posts = [post_a, post_b], filteredPosts = [], allTags = [''x'', ''y''],
      filterState = \<lparr>searchTerm = ''zzz'', selectedTags = [], sortOrder = Oldest, viewMode = ListView\<rparr>,
      uiCache = None, lastFilterKey = NoKey\<rparr>"

text \<open>
  An encoder for the sample data: it rewrites a space to \<open>%20\<close> and leaves the other
  characters as they are.
\<close>

definition sampleEncode :: "string \<Rightarrow> string" where
  "sampleEncode s = concat (map (\<lambda>c. if c = CHR '' '' then ''%20'' else [c]) s)"

text \<open>
  The page as loaded, without a fragment.
\<close>

definition start_page :: nav_state where
  "start_page = \<lparr>location_hash = [], currentView = ''home'', navigationHistory = [],
                 content = RenderHome\<rparr>"

definition eleven_navs :: "(string \<times> string option) list" where
  "eleven_navs = replicate 11 (''posts'', None)"



definition sample_index :: "index_entry list" where
  "sample_index =
     [\<lparr>entry_id = ''a'', entry_title = ''Alpha'', entry_date = ''2024-01-01'', entry_tags = [''x'']\<rparr>,
      \<lparr>entry_id = ''gone'', entry_title = ''Gone'', entry_date = ''2024-03-01'', entry_tags = []\<rparr>,
      \<lparr>entry_id = ''b'', entry_title = ''Beta'', entry_date = ''2024-06-01'', entry_tags = [''y'']\<rparr>]"

definition sample_net :: network where
  "sample_net =
     \<lparr>index_json = Some sample_index,
      post_json = map_of [(''posts/a.json'', post_a), (''posts/b.json'', post_b)],
      legacy_json = None\<rparr>"

definition legacy_net :: network where
  "legacy_net = \<lparr>index_json = None, post_json = (\<lambda>url. None), legacy_json = Some [post_a]\<rparr>"

definition bad_gallery_net :: network where
  "bad_gallery_net =
     \<lparr>index_json = Some sample_index,
      post_json = map_of [(''posts/a.json'', post_bad), (''posts/b.json'', post_b)],
      legacy_json = None\<rparr>"

definition offline_net :: network where
  "offline_net = \<lparr>index_json = None, post_json = (\<lambda>url. None), legacy_json = None\<rparr>"

definition sample_gallery :: "gallery_image list" where
  "sample_gallery =
     [\<lparr>src = ''img/one.png'', alt = Some ''one'', caption = None, isPlaceholder = False\<rparr>,
      \<lparr>src = ''img/two.png'', alt = None, caption = Some ''two'', isPlaceholder = False\<rparr>]"

definition sample_loads :: "string \<Rightarrow> bool" where
  "sample_loads url \<longleftrightarrow> url = ''img/one.png''"

definition sample_renderer :: post_renderer where
  "sample_renderer = new_PostRenderer\<lparr>galleryImages := sample_gallery\<rparr>"

section \<open>Strings and sorting\<close>

lemma str_includes_sublist: "str_includes s t = sublist t s"
  by (induction s) (auto simp: sublist_Cons_right)

lemma sort_sort: "sort (sort xs) = sort xs" for xs :: "string list"
  by (simp add: sorted_sort_id)

lemma mset_insert_cmp: "mset (insert_cmp cmp x ys) = add_mset x (mset ys)"
  by (induction ys) auto

lemma mset_array_sort: "mset (array_sort cmp xs) = mset xs"
  unfolding array_sort_def by (induction xs) (auto simp: mset_insert_cmp)

lemma set_array_sort: "set (array_sort cmp xs) = set xs"
  using mset_array_sort [of cmp xs] by (metis set_mset_mset)

lemma insert_cmp_insort_key:
  assumes "\<And>y. y \<in> set ys \<Longrightarrow> (cmp_value (cmp x y) \<le> 0) = (f x \<le> f y)"
  shows "insert_cmp cmp x ys = insort_key f x ys"
  using assms by (induction ys) auto

lemma array_sort_sort_key:
  assumes "\<And>x y. x \<in> set xs \<Longrightarrow> y \<in> set xs \<Longrightarrow> (cmp_value (cmp x y) \<le> 0) = (f x \<le> f y)"
  shows "array_sort cmp xs = sort_key f xs"
  using assms
proof (induction xs)
  case Nil
  then show ?case by (simp add: array_sort_def)
next
  case (Cons x xs)
  have ih: "array_sort cmp xs = sort_key f xs"
    using Cons by simp
  have "insert_cmp cmp x (sort_key f xs) = insort_key f x (sort_key f xs)"
    by (rule insert_cmp_insort_key) (simp add: Cons.prems)
  with ih show ?case
    by (simp add: array_sort_def)
qed

lemma by_newest_key:
  assumes "Date (date a) \<noteq> None" "Date (date b) \<noteq> None"
  shows "(cmp_value (by_newest Date a b) \<le> 0) = (- dateValue Date a \<le> - dateValue Date b)"
  using assms by (auto simp: by_newest_def date_diff_def cmp_value_def dateValue_def)

lemma by_oldest_key:
  assumes "Date (date a) \<noteq> None" "Date (date b) \<noteq> None"
  shows "(cmp_value (by_oldest Date a b) \<le> 0) = (dateValue Date a \<le> dateValue Date b)"
  using assms by (auto simp: by_oldest_def date_diff_def cmp_value_def dateValue_def)

lemma sorted_array_sort_newest:
  assumes "\<forall>p\<in>set xs. Date (date p) \<noteq> None"
  shows "array_sort (by_newest Date) xs = sort_key (\<lambda>p. - dateValue Date p) xs"
  using assms by (intro array_sort_sort_key by_newest_key) auto

lemma sorted_array_sort_oldest:
  assumes "\<forall>p\<in>set xs. Date (date p) \<noteq> None"
  shows "array_sort (by_oldest Date) xs = sort_key (dateValue Date) xs"
  using assms by (intro array_sort_sort_key by_oldest_key) auto

lemma descending_uminus:
  "sorted (map (\<lambda>p. - f p) xs) \<Longrightarrow> sorted_wrt (\<lambda>x y. y \<le> x) (map f xs)" for f :: "'a \<Rightarrow> int"
  by (simp add: sorted_wrt_map)

lemma stable_newest:
  "filter (\<lambda>p. dateValue Date p = k) (sort_key (\<lambda>p. - dateValue Date p) xs) =
     filter (\<lambda>p. dateValue Date p = k) xs"
  using sort_key_stable [of "\<lambda>p. - dateValue Date p" "- k" xs] by simp

lemma stable_oldest:
  "filter (\<lambda>p. dateValue Date p = k) (sort_key (dateValue Date) xs) =
     filter (\<lambda>p. dateValue Date p = k) xs"
  by (rule sort_key_stable)

section \<open>The filter against its specification\<close>

lemma computeFiltered_sort:
  "computeFiltered Date toLowerCase ps search sel order =
     array_sort (if order = Newest then by_newest Date else by_oldest Date) (filtered toLowerCase ps search sel)"
  by (cases "search = []"; cases "sel = []")
    (simp_all add: computeFiltered_def filtered_def passes_def [abs_def] Let_def)

lemma searchFilter_spec:
  "search \<noteq> [] \<Longrightarrow>
     searchFilter toLowerCase (toLowerCase search) p = matchesSearch toLowerCase search p"
  by (auto simp: searchFilter_def matchesSearch_def ci_substring_def tag_set_def
      str_includes_sublist list_ex_iff split: option.splits)

lemma tagFilter_spec: "sel \<noteq> [] \<Longrightarrow> tagFilter sel p = matchesTags sel p"
  by (auto simp: tagFilter_def matchesTags_def tag_set_def list_ex_iff split: option.splits)

lemma passes_spec: "passes toLowerCase search sel p = (matchesSearch toLowerCase search p \<and> matchesTags sel p)"
proof -
  have "search = [] \<Longrightarrow> matchesSearch toLowerCase search p" by (simp add: matchesSearch_def)
  moreover have "sel = [] \<Longrightarrow> matchesTags sel p" by (simp add: matchesTags_def)
  ultimately show ?thesis
    using searchFilter_spec [where search = search and p = p and toLowerCase = toLowerCase]
      tagFilter_spec [of sel p]
    by (auto simp: passes_def)
qed

lemma matchesTags_sort: "matchesTags (sort sel) p = matchesTags sel p"
  by (simp add: matchesTags_def)

lemma set_filtered:
  "p \<in> set (filtered toLowerCase ps search (sort sel)) \<longleftrightarrow>
     p \<in> set ps \<and> matchesSearch toLowerCase search p \<and> matchesTags sel p"
  by (simp add: filtered_def passes_spec matchesTags_sort)

lemma filtered_valid:
  "\<forall>p\<in>set ps. Date (date p) \<noteq> None \<Longrightarrow> \<forall>p\<in>set (filtered toLowerCase ps search sel). Date (date p) \<noteq> None"
  by (simp add: filtered_def)

section \<open>The cache\<close>

lemma filterAndSortPosts_hit:
  "cacheHit st \<Longrightarrow> filterAndSortPosts Date toLowerCase st = (filteredPosts st, sortSelectedTags st)"
  by (simp add: filterAndSortPosts_def Let_def sortSelectedTags_def)

lemma filterAndSortPosts_miss:
  "\<not> cacheHit st \<Longrightarrow>
     filterAndSortPosts Date toLowerCase st =
       (computeFiltered Date toLowerCase (posts st) (searchTerm (filterState st))
          (sort (selectedTags (filterState st))) (sortOrder (filterState st)),
        (sortSelectedTags st)
          \<lparr>lastFilterKey := filterKey st,
           filteredPosts := computeFiltered Date toLowerCase (posts st) (searchTerm (filterState st))
              (sort (selectedTags (filterState st))) (sortOrder (filterState st))\<rparr>)"
  by (simp add: filterAndSortPosts_def Let_def sortSelectedTags_def)

lemma after_call:
  "filteredPosts (snd (filterAndSortPosts Date toLowerCase st)) = fst (filterAndSortPosts Date toLowerCase st)"
  "lastFilterKey (snd (filterAndSortPosts Date toLowerCase st)) = filterKey st"
  "filterKey (snd (filterAndSortPosts Date toLowerCase st)) = filterKey st"
  "posts (snd (filterAndSortPosts Date toLowerCase st)) = posts st"
  "searchTerm (filterState (snd (filterAndSortPosts Date toLowerCase st))) = searchTerm (filterState st)"
  "selectedTags (filterState (snd (filterAndSortPosts Date toLowerCase st))) = sort (selectedTags (filterState st))"
  "sortOrder (filterState (snd (filterAndSortPosts Date toLowerCase st))) = sortOrder (filterState st)"
  "viewMode (filterState (snd (filterAndSortPosts Date toLowerCase st))) = viewMode (filterState st)"
proof -
  show "filteredPosts (snd (filterAndSortPosts Date toLowerCase st)) = fst (filterAndSortPosts Date toLowerCase st)"
    by (cases "cacheHit st")
      (simp_all add: filterAndSortPosts_hit filterAndSortPosts_miss sortSelectedTags_def)
  show "lastFilterKey (snd (filterAndSortPosts Date toLowerCase st)) = filterKey st"
  proof (cases "cacheHit st")
    case True
    then have "lastFilterKey st = filterKey st"
      unfolding cacheHit_def by simp
    with True show ?thesis
      by (simp add: filterAndSortPosts_hit sortSelectedTags_def)
  next
    case False
    then show ?thesis
      by (simp add: filterAndSortPosts_miss sortSelectedTags_def)
  qed
  show "posts (snd (filterAndSortPosts Date toLowerCase st)) = posts st"
    by (cases "cacheHit st")
      (simp_all add: filterAndSortPosts_hit filterAndSortPosts_miss sortSelectedTags_def)
  show "searchTerm (filterState (snd (filterAndSortPosts Date toLowerCase st))) = searchTerm (filterState st)"
    by (cases "cacheHit st")
      (simp_all add: filterAndSortPosts_hit filterAndSortPosts_miss sortSelectedTags_def)
  show tags: "selectedTags (filterState (snd (filterAndSortPosts Date toLowerCase st))) =
      sort (selectedTags (filterState st))"
    by (cases "cacheHit st")
      (simp_all add: filterAndSortPosts_hit filterAndSortPosts_miss sortSelectedTags_def)
  show "sortOrder (filterState (snd (filterAndSortPosts Date toLowerCase st))) = sortOrder (filterState st)"
    by (cases "cacheHit st")
      (simp_all add: filterAndSortPosts_hit filterAndSortPosts_miss sortSelectedTags_def)
  show "viewMode (filterState (snd (filterAndSortPosts Date toLowerCase st))) = viewMode (filterState st)"
    by (cases "cacheHit st")
      (simp_all add: filterAndSortPosts_hit filterAndSortPosts_miss sortSelectedTags_def)
  then show "filterKey (snd (filterAndSortPosts Date toLowerCase st)) = filterKey st"
    unfolding filterKey_def
    by (cases "cacheHit st")
      (simp_all add: filterAndSortPosts_hit filterAndSortPosts_miss sortSelectedTags_def sort_sort)
qed

lemma cacheHit_after_call:
  "cacheHit (snd (filterAndSortPosts Date toLowerCase st)) \<longleftrightarrow> fst (filterAndSortPosts Date toLowerCase st) \<noteq> []"
  by (simp add: cacheHit_def after_call)

lemma filterAndSortPosts_step:
  assumes "cache_inv Date toLowerCase ps st"
  shows "fst (filterAndSortPosts Date toLowerCase st) =
           computeFiltered Date toLowerCase ps (searchTerm (filterState st))
             (sort (selectedTags (filterState st))) (sortOrder (filterState st))"
    and "cache_inv Date toLowerCase ps (snd (filterAndSortPosts Date toLowerCase st))"
  using assms
  by (auto simp: filterAndSortPosts_def cache_inv_def cacheHit_def filterKey_def
      sortSelectedTags_def Let_def)

lemma cache_inv_filterState: "cache_inv Date toLowerCase ps (st\<lparr>filterState := fs\<rparr>) = cache_inv Date toLowerCase ps st"
  by (simp add: cache_inv_def)

lemma cache_inv_init:
  assumes "posts st = ps \<Longrightarrow> cache_inv Date toLowerCase ps st" and "posts st \<noteq> ps \<Longrightarrow> lastFilterKey st = NoKey"
  shows "cache_inv Date toLowerCase ps (init Date toLowerCase ps st)"
proof -
  have "cache_inv Date toLowerCase ps (extractAllTags (st\<lparr>posts := ps\<rparr>))"
    using assms by (cases "posts st = ps") (auto simp: cache_inv_def extractAllTags_def)
  then show ?thesis
    unfolding init_def by (rule filterAndSortPosts_step(2))
qed

lemma reachable_cache_inv: "reachable Date toLowerCase ps st \<Longrightarrow> cache_inv Date toLowerCase ps st"
proof (induction rule: reachable.induct)
  case reach_init
  show ?case by (rule cache_inv_init) (simp_all add: new_PostFilterUI_def cache_inv_def)
next
  case reach_again
  then show ?case by (intro cache_inv_init) (simp_all add: cache_inv_def)
next
  case reach_cleared
  show ?case by (intro cache_inv_init) (simp_all add: cache_inv_def clearCache_def)
next
  case reach_filter
  show ?case using reach_filter.IH by (rule filterAndSortPosts_step(2))
next
  case reach_search
  then show ?case
    unfolding onSearchInput_def
    by (intro filterAndSortPosts_step(2)) (simp add: cache_inv_filterState)
next
  case reach_tag
  then show ?case
    unfolding onTagChange_def Let_def
    by (intro filterAndSortPosts_step(2)) (simp add: cache_inv_filterState)
next
  case reach_sort
  then show ?case
    unfolding onSortChange_def
    by (intro filterAndSortPosts_step(2)) (simp add: cache_inv_filterState)
next
  case reach_view
  then show ?case by (simp add: onViewButton_def cache_inv_filterState)
next
  case reach_reset
  then show ?case
    unfolding resetFilters_def
    by (intro filterAndSortPosts_step(2)) (simp add: cache_inv_def)
next
  case reach_clear
  then show ?case by (simp add: clearCache_def cache_inv_def)
next
  case reach_state
  then show ?case by (simp add: cache_inv_filterState)
qed

lemma reachable_result:
  assumes "reachable Date toLowerCase ps st"
  shows "fst (filterAndSortPosts Date toLowerCase st) =
           array_sort (if sortOrder (filterState st) = Newest then by_newest Date else by_oldest Date)
             (filtered toLowerCase ps (searchTerm (filterState st)) (sort (selectedTags (filterState st))))"
  using filterAndSortPosts_step(1) [OF reachable_cache_inv [OF assms]]
  by (simp add: computeFiltered_sort)

lemma reachable_order:
  assumes r: "reachable Date toLowerCase ps st" and v: "\<forall>p\<in>set ps. Date (date p) \<noteq> None"
  shows "sortOrder (filterState st) = Newest \<Longrightarrow>
           sorted_wrt (\<lambda>x y. y \<le> x) (map (dateValue Date) (fst (filterAndSortPosts Date toLowerCase st)))"
    and "sortOrder (filterState st) = Oldest \<Longrightarrow>
           sorted (map (dateValue Date) (fst (filterAndSortPosts Date toLowerCase st)))"
    and "filter (\<lambda>p. dateValue Date p = k) (fst (filterAndSortPosts Date toLowerCase st)) =
           filter (\<lambda>p. dateValue Date p = k \<and> p \<in> set (fst (filterAndSortPosts Date toLowerCase st))) ps"
proof -
  let ?f = "filtered toLowerCase ps (searchTerm (filterState st)) (sort (selectedTags (filterState st)))"
  let ?r = "fst (filterAndSortPosts Date toLowerCase st)"
  have fv: "\<forall>p\<in>set ?f. Date (date p) \<noteq> None"
    using v by (rule filtered_valid)
  have new: "?r = sort_key (\<lambda>p. - dateValue Date p) ?f" if "sortOrder (filterState st) = Newest"
    using that reachable_result [OF r] sorted_array_sort_newest [OF fv] by simp
  have old: "?r = sort_key (dateValue Date) ?f" if "sortOrder (filterState st) = Oldest"
    using that reachable_result [OF r] sorted_array_sort_oldest [OF fv] by simp
  show "sorted_wrt (\<lambda>x y. y \<le> x) (map (dateValue Date) ?r)" if "sortOrder (filterState st) = Newest"
    using new [OF that] by (simp add: descending_uminus)
  show "sorted (map (dateValue Date) ?r)" if "sortOrder (filterState st) = Oldest"
    using old [OF that] by simp
  have "filter (\<lambda>p. dateValue Date p = k) ?r = filter (\<lambda>p. dateValue Date p = k) ?f"
    using new old by (cases "sortOrder (filterState st)") (simp_all add: stable_newest stable_oldest)
  also have "\<dots> = filter (\<lambda>p. dateValue Date p = k \<and>
      passes toLowerCase (searchTerm (filterState st)) (sort (selectedTags (filterState st))) p) ps"
    by (simp add: filtered_def conj_commute)
  also have "\<dots> = filter (\<lambda>p. dateValue Date p = k \<and> p \<in> set ?r) ps"
  proof (rule filter_cong [OF refl])
    fix p assume "p \<in> set ps"
    moreover have "set ?r = set ?f"
      by (simp add: reachable_result [OF r] set_array_sort)
    ultimately show "(dateValue Date p = k \<and>
        passes toLowerCase (searchTerm (filterState st)) (sort (selectedTags (filterState st))) p) =
        (dateValue Date p = k \<and> p \<in> set ?r)"
      by (simp add: filtered_def)
  qed
  finally show "filter (\<lambda>p. dateValue Date p = k) ?r =
      filter (\<lambda>p. dateValue Date p = k \<and> p \<in> set ?r) ps" .
qed

lemma scenario_newest:
  assumes "date a = ''2024-01-01''" "date b = ''2024-06-01''"
    and "Date ''2024-01-01'' = Some ta" "Date ''2024-06-01'' = Some tb" "ta < tb"
  shows "filteredPosts (init Date toLowerCase [a, b] new_PostFilterUI) = [b, a]"
    and "fst (filterAndSortPosts Date toLowerCase (init Date toLowerCase [a, b] new_PostFilterUI)) = [b, a]"
proof -
  have c: "computeFiltered Date toLowerCase [a, b] [] [] Newest = [b, a]"
    using assms
    by (simp add: computeFiltered_def array_sort_def by_newest_def date_diff_def cmp_value_def)
  have m: "\<not> cacheHit (extractAllTags (new_PostFilterUI\<lparr>posts := [a, b]\<rparr>))"
    by (simp add: cacheHit_def extractAllTags_def new_PostFilterUI_def)
  show i: "filteredPosts (init Date toLowerCase [a, b] new_PostFilterUI) = [b, a]"
    unfolding init_def
    by (simp add: filterAndSortPosts_miss [OF m])
      (simp add: extractAllTags_def new_PostFilterUI_def c)
  have "cacheHit (init Date toLowerCase [a, b] new_PostFilterUI)"
    unfolding init_def by (simp add: cacheHit_after_call) (simp add: i [unfolded init_def] after_call [symmetric])
  then show "fst (filterAndSortPosts Date toLowerCase (init Date toLowerCase [a, b] new_PostFilterUI)) = [b, a]"
    by (simp add: filterAndSortPosts_hit i)
qed

lemma sample_valid: "\<forall>p\<in>set [post_a, post_b]. sampleDate (date p) \<noteq> None"
  by (simp add: post_a_def post_b_def sampleDate_def)

lemma sample_ui_result: "fst (filterAndSortPosts sampleDate asciiLowerCase sample_ui) = [post_b, post_a]"
  unfolding sample_ui_def
  by (rule scenario_newest(2) [where ta = 1704067200000 and tb = 1717200000000])
    (simp_all add: post_a_def post_b_def sampleDate_def)

lemma search_ui_term: "searchTerm (filterState search_ui) = ''BET''"
  by (simp add: search_ui_def onSearchInput_def after_call)

lemma search_ui_tags: "selectedTags (filterState search_ui) = []"
  by (simp add: search_ui_def onSearchInput_def sample_ui_def init_def after_call)
    (simp add: extractAllTags_def new_PostFilterUI_def)

lemma zzz_result: "fst (filterAndSortPosts sampleDate asciiLowerCase zzz_ui) = []"
proof -
  have "\<not> cacheHit zzz_ui"
    by (simp add: cacheHit_def zzz_ui_def)
  moreover have "computeFiltered sampleDate asciiLowerCase [post_a, post_b] ''zzz'' [] Oldest = []"
    by (simp add: computeFiltered_def searchFilter_def asciiLowerCase_def asciiLowerCase_char_def
        post_a_def post_b_def array_sort_def)
  ultimately show ?thesis
    by (simp add: filterAndSortPosts_miss) (simp add: zzz_ui_def)
qed

section \<open>Claims on the filter\<close>

text \<open>
  Claim C1, as amended. Let the posts sequence of an instance be \<open>ps\<close>: the instance
  was initialised with \<open>ps\<close>, and a sequence other than the one it held was installed
  only after \<open>clearCache\<close>. Then for every filter state the sequence that
  \<open>filterAndSortPosts\<close> returns is a subset of \<open>ps\<close> (also as a multiset), and a post is
  in the result exactly when it is in \<open>ps\<close> and satisfies the search predicate and the
  tag predicate.
\<close>

theorem filterAndSortPosts_membership:
  assumes "reachable Date toLowerCase ps st"
  shows "set (fst (filterAndSortPosts Date toLowerCase st)) \<subseteq> set ps \<and>
         mset (fst (filterAndSortPosts Date toLowerCase st)) \<subseteq># mset ps \<and>
         (\<forall>p. p \<in> set (fst (filterAndSortPosts Date toLowerCase st)) \<longleftrightarrow>
              p \<in> set ps \<and> matchesSearch toLowerCase (searchTerm (filterState st)) p
              \<and> matchesTags (selectedTags (filterState st)) p)"
proof -
  let ?r = "fst (filterAndSortPosts Date toLowerCase st)"
  let ?f = "filtered toLowerCase ps (searchTerm (filterState st)) (sort (selectedTags (filterState st)))"
  have m: "mset ?r = mset ?f"
    by (simp add: reachable_result [OF assms] mset_array_sort)
  then have s: "set ?r = set ?f"
    by (metis set_mset_mset)
  have "mset ?f \<subseteq># mset ps"
    by (simp add: filtered_def)
  with m s show ?thesis
    by (auto simp: set_filtered)
qed

text \<open>
  Witness for C1: after typing \<open>BET\<close> into the search box, the result holds post b and
  not post a.
\<close>

theorem filterAndSortPosts_membership_witness:
  "reachable sampleDate asciiLowerCase [post_a, post_b] search_ui
   \<and> searchTerm (filterState search_ui) = ''BET''
   \<and> set (fst (filterAndSortPosts sampleDate asciiLowerCase search_ui)) \<subseteq> set [post_a, post_b]
   \<and> post_b \<in> set (fst (filterAndSortPosts sampleDate asciiLowerCase search_ui))
   \<and> post_a \<notin> set (fst (filterAndSortPosts sampleDate asciiLowerCase search_ui))"
proof -
  have r: "reachable sampleDate asciiLowerCase [post_a, post_b] search_ui"
    unfolding search_ui_def sample_ui_def by (intro reach_search reach_init)
  note t = filterAndSortPosts_membership [OF r]
  have b: "matchesSearch asciiLowerCase ''BET'' post_b"
    by (simp add: matchesSearch_def ci_substring_def asciiLowerCase_def asciiLowerCase_char_def
        post_b_def sublist_code)
  have a: "\<not> matchesSearch asciiLowerCase ''BET'' post_a"
    by (simp add: matchesSearch_def ci_substring_def asciiLowerCase_def asciiLowerCase_char_def
        post_a_def tag_set_def sublist_code)
  have m: "matchesTags [] post_b"
    by (simp add: matchesTags_def)
  have "post_b \<in> set (fst (filterAndSortPosts sampleDate asciiLowerCase search_ui))"
    using t b m by (simp add: search_ui_term search_ui_tags)
  moreover have "post_a \<notin> set (fst (filterAndSortPosts sampleDate asciiLowerCase search_ui))"
    using t a by (simp add: search_ui_term)
  moreover have "set (fst (filterAndSortPosts sampleDate asciiLowerCase search_ui)) \<subseteq> set [post_a, post_b]"
    using t by blast
  ultimately show ?thesis
    using r search_ui_term by (intro conjI)
qed

lemma sample_ui_fields:
  "searchTerm (filterState sample_ui) = []"
  "selectedTags (filterState sample_ui) = []"
  "sortOrder (filterState sample_ui) = Newest"
  "lastFilterKey sample_ui = FilterKey [] [] Newest"
  "filteredPosts sample_ui = [post_b, post_a]"
proof -
  show "searchTerm (filterState sample_ui) = []"
    by (simp add: sample_ui_def init_def after_call) (simp add: extractAllTags_def new_PostFilterUI_def)
  show "selectedTags (filterState sample_ui) = []"
    by (simp add: sample_ui_def init_def after_call) (simp add: extractAllTags_def new_PostFilterUI_def)
  show "sortOrder (filterState sample_ui) = Newest"
    by (simp add: sample_ui_def init_def after_call) (simp add: extractAllTags_def new_PostFilterUI_def)
  show "lastFilterKey sample_ui = FilterKey [] [] Newest"
    by (simp add: sample_ui_def init_def after_call)
      (simp add: filterKey_def extractAllTags_def new_PostFilterUI_def)
  show "filteredPosts sample_ui = [post_b, post_a]"
    unfolding sample_ui_def
    by (rule scenario_newest(1) [where ta = 1704067200000 and tb = 1717200000000])
      (simp_all add: post_a_def post_b_def sampleDate_def)
qed

lemma reinit_ui_stale:
  "reinit_ui = sortSelectedTags (extractAllTags (sample_ui\<lparr>posts := [post_c]\<rparr>))"
proof -
  have "cacheHit (extractAllTags (sample_ui\<lparr>posts := [post_c]\<rparr>))"
    by (simp add: cacheHit_def filterKey_def extractAllTags_def sample_ui_fields)
  then show ?thesis
    by (simp add: reinit_ui_def init_def filterAndSortPosts_hit)
qed

text \<open>
  Counterexample for C1 as stated. The instance is initialised with the posts a and b
  and then with post c alone; \<open>init\<close> replaces the posts and keeps the cache key. With
  the filter state unchanged (no search term, no tag selected), \<open>filterAndSortPosts\<close>
  still returns b and a: neither of them is among the posts of the instance, and post c,
  which passes both predicates, is missing.
\<close>

theorem filterAndSortPosts_membership_counterexample:
  "posts reinit_ui = [post_c]
   \<and> searchTerm (filterState reinit_ui) = []
   \<and> selectedTags (filterState reinit_ui) = []
   \<and> fst (filterAndSortPosts sampleDate asciiLowerCase reinit_ui) = [post_b, post_a]
   \<and> \<not> set (fst (filterAndSortPosts sampleDate asciiLowerCase reinit_ui)) \<subseteq> set (posts reinit_ui)
   \<and> post_c \<notin> set (fst (filterAndSortPosts sampleDate asciiLowerCase reinit_ui))
   \<and> matchesSearch asciiLowerCase [] post_c
   \<and> matchesTags [] post_c"
proof -
  have p: "posts reinit_ui = [post_c]"
    by (simp add: reinit_ui_stale sortSelectedTags_def extractAllTags_def)
  have s: "searchTerm (filterState reinit_ui) = []"
    by (simp add: reinit_ui_stale sortSelectedTags_def extractAllTags_def sample_ui_fields)
  have t: "selectedTags (filterState reinit_ui) = []"
    by (simp add: reinit_ui_stale sortSelectedTags_def extractAllTags_def sample_ui_fields)
  have f: "filteredPosts reinit_ui = [post_b, post_a]"
    by (simp add: reinit_ui_stale sortSelectedTags_def extractAllTags_def sample_ui_fields)
  have "cacheHit reinit_ui"
    by (simp add: cacheHit_def f)
      (simp add: reinit_ui_stale filterKey_def sortSelectedTags_def extractAllTags_def
        sample_ui_fields)
  then have r: "fst (filterAndSortPosts sampleDate asciiLowerCase reinit_ui) = [post_b, post_a]"
    by (simp add: filterAndSortPosts_hit f)
  have d: "post_a \<noteq> post_c" "post_b \<noteq> post_c"
    by (simp_all add: post_a_def post_b_def post_c_def)
  have n: "\<not> set (fst (filterAndSortPosts sampleDate asciiLowerCase reinit_ui)) \<subseteq> set (posts reinit_ui)"
    using d by (simp add: r p)
  have m: "post_c \<notin> set (fst (filterAndSortPosts sampleDate asciiLowerCase reinit_ui))"
    using d by (auto simp: r)
  have x: "matchesSearch asciiLowerCase [] post_c" "matchesTags [] post_c"
    by (simp_all add: matchesSearch_def matchesTags_def)
  show ?thesis
    using p s t r n m x by (intro conjI)
qed

text \<open>
  Claim C2. Two calls of \<open>filterAndSortPosts\<close> in succession return the same sequence.
  When the first result is not empty, the second call is a cache hit under the key
  built from the search term, the sorted selected tags and the sort order: it returns
  the stored result, leaves the state as it is, and returns the same even when the posts
  were replaced in between, so it does not compute anything from the posts.
\<close>

theorem filterAndSortPosts_twice:
  "fst (filterAndSortPosts Date toLowerCase (snd (filterAndSortPosts Date toLowerCase st))) = fst (filterAndSortPosts Date toLowerCase st)
   \<and> (fst (filterAndSortPosts Date toLowerCase st) \<noteq> [] \<longrightarrow>
        cacheHit (snd (filterAndSortPosts Date toLowerCase st))
        \<and> lastFilterKey (snd (filterAndSortPosts Date toLowerCase st)) =
            FilterKey (searchTerm (filterState st)) (sort (selectedTags (filterState st)))
              (sortOrder (filterState st))
        \<and> filterAndSortPosts Date toLowerCase (snd (filterAndSortPosts Date toLowerCase st)) =
            (filteredPosts (snd (filterAndSortPosts Date toLowerCase st)), snd (filterAndSortPosts Date toLowerCase st))
        \<and> (\<forall>qs. fst (filterAndSortPosts Date toLowerCase ((snd (filterAndSortPosts Date toLowerCase st))\<lparr>posts := qs\<rparr>)) =
                  fst (filterAndSortPosts Date toLowerCase st)))"
proof -
  let ?s1 = "snd (filterAndSortPosts Date toLowerCase st)"
  let ?r1 = "fst (filterAndSortPosts Date toLowerCase st)"
  have "sort (selectedTags (filterState ?s1)) = selectedTags (filterState ?s1)"
    by (simp add: after_call sort_sort)
  then have sorted_again: "sortSelectedTags ?s1 = ?s1"
    by (simp add: sortSelectedTags_def)
  have hit: "filterAndSortPosts Date toLowerCase ?s1 = (filteredPosts ?s1, ?s1)" if "?r1 \<noteq> []"
    using that by (simp add: filterAndSortPosts_hit cacheHit_after_call sorted_again)
  have hit': "fst (filterAndSortPosts Date toLowerCase (?s1\<lparr>posts := qs\<rparr>)) = ?r1" if "?r1 \<noteq> []" for qs
  proof -
    have "cacheHit (?s1\<lparr>posts := qs\<rparr>)"
      using that cacheHit_after_call [where Date = Date and st = st] by (simp add: cacheHit_def filterKey_def)
    then show ?thesis
      by (simp add: filterAndSortPosts_hit after_call)
  qed
  have same: "fst (filterAndSortPosts Date toLowerCase ?s1) = ?r1"
  proof (cases "?r1 = []")
    case True
    have "fst (filterAndSortPosts Date toLowerCase st) \<noteq> []" if "cacheHit st"
      using that by (simp add: filterAndSortPosts_hit) (simp add: cacheHit_def)
    with True have miss1: "\<not> cacheHit st"
      by blast
    have "\<not> cacheHit ?s1"
      using True by (simp add: cacheHit_after_call)
    then have "fst (filterAndSortPosts Date toLowerCase ?s1) =
        computeFiltered Date toLowerCase (posts st) (searchTerm (filterState st))
          (sort (selectedTags (filterState st))) (sortOrder (filterState st))"
      by (simp add: filterAndSortPosts_miss after_call sort_sort)
    also have "\<dots> = ?r1"
      using miss1 by (simp add: filterAndSortPosts_miss)
    finally show ?thesis .
  next
    case False
    then show ?thesis by (simp add: hit after_call)
  qed
  show ?thesis
    using same hit hit' by (simp add: cacheHit_after_call after_call filterKey_def)
qed

text \<open>
  Witness for C2 on the two sample posts.
\<close>

theorem filterAndSortPosts_twice_witness:
  "fst (filterAndSortPosts sampleDate asciiLowerCase sample_ui) \<noteq> []
   \<and> cacheHit (snd (filterAndSortPosts sampleDate asciiLowerCase sample_ui))
   \<and> fst (filterAndSortPosts sampleDate asciiLowerCase (snd (filterAndSortPosts sampleDate asciiLowerCase sample_ui))) =
       [post_b, post_a]"
proof -
  have n: "fst (filterAndSortPosts sampleDate asciiLowerCase sample_ui) \<noteq> []"
    by (simp add: sample_ui_result)
  note t = filterAndSortPosts_twice [where Date = sampleDate and toLowerCase = asciiLowerCase and st = sample_ui]
  have "cacheHit (snd (filterAndSortPosts sampleDate asciiLowerCase sample_ui))"
    using t n by blast
  moreover have "fst (filterAndSortPosts sampleDate asciiLowerCase (snd (filterAndSortPosts sampleDate asciiLowerCase sample_ui))) =
       fst (filterAndSortPosts sampleDate asciiLowerCase sample_ui)"
    using t by blast
  then have "fst (filterAndSortPosts sampleDate asciiLowerCase (snd (filterAndSortPosts sampleDate asciiLowerCase sample_ui))) =
       [post_b, post_a]"
    by (simp add: sample_ui_result)
  ultimately show ?thesis
    using n by (intro conjI)
qed

text \<open>
  Claim C3. A stored result that is empty is never a cache hit. After a call that
  returned the empty sequence the key of the unchanged filter state equals the stored
  key, and still the next call is not served from the cache: it computes its result from
  whatever posts it finds.
\<close>

theorem empty_result_not_cached:
  "(filteredPosts st = [] \<longrightarrow>
      \<not> cacheHit st
      \<and> fst (filterAndSortPosts Date toLowerCase st) =
          computeFiltered Date toLowerCase (posts st) (searchTerm (filterState st))
            (sort (selectedTags (filterState st))) (sortOrder (filterState st)))
   \<and> (fst (filterAndSortPosts Date toLowerCase st) = [] \<longrightarrow>
        filterKey (snd (filterAndSortPosts Date toLowerCase st)) = lastFilterKey (snd (filterAndSortPosts Date toLowerCase st))
        \<and> \<not> cacheHit (snd (filterAndSortPosts Date toLowerCase st))
        \<and> (\<forall>qs. fst (filterAndSortPosts Date toLowerCase ((snd (filterAndSortPosts Date toLowerCase st))\<lparr>posts := qs\<rparr>)) =
                  computeFiltered Date toLowerCase qs (searchTerm (filterState st))
                    (sort (selectedTags (filterState st))) (sortOrder (filterState st))))"
proof -
  let ?s1 = "snd (filterAndSortPosts Date toLowerCase st)"
  have a: "\<not> cacheHit st" if "filteredPosts st = []"
    using that by (simp add: cacheHit_def)
  have b: "\<not> cacheHit (?s1\<lparr>posts := qs\<rparr>)" if "fst (filterAndSortPosts Date toLowerCase st) = []" for qs
    using that by (simp add: cacheHit_def after_call)
  have c: "fst (filterAndSortPosts Date toLowerCase (?s1\<lparr>posts := qs\<rparr>)) =
                  computeFiltered Date toLowerCase qs (searchTerm (filterState st))
                    (sort (selectedTags (filterState st))) (sortOrder (filterState st))"
    if "fst (filterAndSortPosts Date toLowerCase st) = []" for qs
    using filterAndSortPosts_miss [OF b [OF that], where Date = Date] by (simp add: after_call sort_sort)
  show ?thesis
    using a c by (simp add: filterAndSortPosts_miss after_call cacheHit_after_call)
qed

text \<open>
  Witness for C3: the search term \<open>zzz\<close> matches neither sample post.
\<close>

theorem empty_result_not_cached_witness:
  "filteredPosts zzz_ui = []
   \<and> \<not> cacheHit zzz_ui
   \<and> fst (filterAndSortPosts sampleDate asciiLowerCase zzz_ui) = []
   \<and> \<not> cacheHit (snd (filterAndSortPosts sampleDate asciiLowerCase zzz_ui))"
proof -
  have e: "filteredPosts zzz_ui = []"
    by (simp add: zzz_ui_def)
  note t = empty_result_not_cached [where Date = sampleDate and toLowerCase = asciiLowerCase and st = zzz_ui]
  have "\<not> cacheHit zzz_ui"
    using t e by blast
  moreover have "\<not> cacheHit (snd (filterAndSortPosts sampleDate asciiLowerCase zzz_ui))"
    using t zzz_result by blast
  ultimately show ?thesis
    using e zzz_result by (intro conjI)
qed

text \<open>
  Claim C4. When every post has a valid date, the result of \<open>filterAndSortPosts\<close> is
  in descending order of date for \<open>newest\<close> and in ascending order for \<open>oldest\<close>, and
  the sort is stable: the posts of the result with one and the same date come in the
  order they have in the posts sequence. For posts a of 2024-01-01 and b of 2024-06-01,
  with the filter state of a new instance (no search term, no tag, \<open>newest\<close>), the result
  is b, a.
\<close>

theorem filterAndSortPosts_order:
  "(reachable Date toLowerCase ps st \<and> (\<forall>p\<in>set ps. Date (date p) \<noteq> None) \<longrightarrow>
      (sortOrder (filterState st) = Newest \<longrightarrow>
         sorted_wrt (\<lambda>x y. y \<le> x) (map (dateValue Date) (fst (filterAndSortPosts Date toLowerCase st))))
      \<and> (sortOrder (filterState st) = Oldest \<longrightarrow>
           sorted (map (dateValue Date) (fst (filterAndSortPosts Date toLowerCase st))))
      \<and> (\<forall>k. filter (\<lambda>p. dateValue Date p = k) (fst (filterAndSortPosts Date toLowerCase st)) =
               filter (\<lambda>p. dateValue Date p = k \<and> p \<in> set (fst (filterAndSortPosts Date toLowerCase st))) ps))
   \<and> (date a = ''2024-01-01'' \<and> date b = ''2024-06-01''
        \<and> Date ''2024-01-01'' = Some ta \<and> Date ''2024-06-01'' = Some tb \<and> ta < tb \<longrightarrow>
        filteredPosts (init Date toLowerCase [a, b] new_PostFilterUI) = [b, a]
        \<and> fst (filterAndSortPosts Date toLowerCase (init Date toLowerCase [a, b] new_PostFilterUI)) = [b, a])"
  using reachable_order [where Date = Date and toLowerCase = toLowerCase and ps = ps and st = st]
    scenario_newest [where a = a and b = b and Date = Date and toLowerCase = toLowerCase and ta = ta and tb = tb]
  by blast

text \<open>
  Witness for C4 on the two sample posts.
\<close>

theorem filterAndSortPosts_order_witness:
  "reachable sampleDate asciiLowerCase [post_a, post_b] (init sampleDate asciiLowerCase [post_a, post_b] new_PostFilterUI)
   \<and> list_all (\<lambda>p. sampleDate (date p) \<noteq> None) [post_a, post_b]
   \<and> sortOrder (filterState (init sampleDate asciiLowerCase [post_a, post_b] new_PostFilterUI)) = Newest
   \<and> date post_a = ''2024-01-01'' \<and> date post_b = ''2024-06-01''
   \<and> sampleDate ''2024-01-01'' = Some 1704067200000
   \<and> sampleDate ''2024-06-01'' = Some 1717200000000
   \<and> fst (filterAndSortPosts sampleDate asciiLowerCase (init sampleDate asciiLowerCase [post_a, post_b] new_PostFilterUI)) =
       [post_b, post_a]
   \<and> sorted_wrt (\<lambda>x y. y \<le> x)
        (map (dateValue sampleDate)
           (fst (filterAndSortPosts sampleDate asciiLowerCase (init sampleDate asciiLowerCase [post_a, post_b] new_PostFilterUI))))"
proof -
  have r: "reachable sampleDate asciiLowerCase [post_a, post_b] (init sampleDate asciiLowerCase [post_a, post_b] new_PostFilterUI)"
    by (rule reach_init)
  have d: "date post_a = ''2024-01-01''" "date post_b = ''2024-06-01''"
    "sampleDate ''2024-01-01'' = Some 1704067200000"
    "sampleDate ''2024-06-01'' = Some 1717200000000"
    by (simp_all add: post_a_def post_b_def sampleDate_def)
  have n: "sortOrder (filterState (init sampleDate asciiLowerCase [post_a, post_b] new_PostFilterUI)) = Newest"
    by (simp add: init_def after_call) (simp add: extractAllTags_def new_PostFilterUI_def)
  note t = filterAndSortPosts_order [where Date = sampleDate and toLowerCase = asciiLowerCase
        and ps = "[post_a, post_b]"
        and st = "init sampleDate asciiLowerCase [post_a, post_b] new_PostFilterUI"
        and a = post_a and b = post_b and ta = 1704067200000 and tb = 1717200000000]
  have lt: "(1704067200000 :: int) < 1717200000000"
    by simp
  have s: "sorted_wrt (\<lambda>x y. y \<le> x)
        (map (dateValue sampleDate)
           (fst (filterAndSortPosts sampleDate asciiLowerCase (init sampleDate asciiLowerCase [post_a, post_b] new_PostFilterUI))))"
    using t r sample_valid n by blast
  have o: "fst (filterAndSortPosts sampleDate asciiLowerCase (init sampleDate asciiLowerCase [post_a, post_b] new_PostFilterUI)) =
       [post_b, post_a]"
    using t d lt by blast
  have v: "list_all (\<lambda>p. sampleDate (date p) \<noteq> None) [post_a, post_b]"
    using sample_valid by (simp add: list_all_iff)
  show ?thesis
    using r v n d s o by (intro conjI)
qed

text \<open>
  Claim C10. \<open>resetFilters\<close> empties the search term and the selected tags and sets the
  sort order to \<open>newest\<close>; the view mode, the posts, the tag universe and the UI cache
  stay as they are. With the key invalidated, the call of \<open>filterAndSortPosts\<close> that
  ends \<open>resetFilters\<close> is not a cache hit: the stored result is recomputed from the posts
  and stored under the key of the reset state.
\<close>

theorem resetFilters_effect:
  "searchTerm (filterState (resetFilters Date toLowerCase st)) = []
   \<and> selectedTags (filterState (resetFilters Date toLowerCase st)) = []
   \<and> sortOrder (filterState (resetFilters Date toLowerCase st)) = Newest
   \<and> viewMode (filterState (resetFilters Date toLowerCase st)) = viewMode (filterState st)
   \<and> posts (resetFilters Date toLowerCase st) = posts st
   \<and> allTags (resetFilters Date toLowerCase st) = allTags st
   \<and> uiCache (resetFilters Date toLowerCase st) = uiCache st
   \<and> \<not> cacheHit (st\<lparr>filterState := (filterState st)\<lparr>searchTerm := [], selectedTags := [],
                                                    sortOrder := Newest\<rparr>,
                     lastFilterKey := NoKey\<rparr>)
   \<and> filteredPosts (resetFilters Date toLowerCase st) = computeFiltered Date toLowerCase (posts st) [] [] Newest
   \<and> lastFilterKey (resetFilters Date toLowerCase st) = FilterKey [] [] Newest"
  by (simp add: resetFilters_def filterAndSortPosts_def Let_def cacheHit_def filterKey_def
      sortSelectedTags_def extractAllTags_def)

text \<open>
  Witness for C10: a reset in list view keeps the list view and the posts.
\<close>

theorem resetFilters_effect_witness:
  "searchTerm (filterState (resetFilters sampleDate asciiLowerCase zzz_ui)) = []
   \<and> sortOrder (filterState (resetFilters sampleDate asciiLowerCase zzz_ui)) = Newest
   \<and> viewMode (filterState (resetFilters sampleDate asciiLowerCase zzz_ui)) = ListView
   \<and> posts (resetFilters sampleDate asciiLowerCase zzz_ui) = [post_a, post_b]"
proof -
  note t = resetFilters_effect [where Date = sampleDate and toLowerCase = asciiLowerCase and st = zzz_ui]
  have "viewMode (filterState zzz_ui) = ListView" "posts zzz_ui = [post_a, post_b]"
    by (simp_all add: zzz_ui_def)
  with t show ?thesis
    by simp
qed

section \<open>The navigation history\<close>

lemma length_navigateTo:
  "length (navigationHistory st) \<le> 10 \<Longrightarrow> length (navigationHistory (navigateTo encode v pid st)) \<le> 10"
  by (simp add: navigateTo_def Let_def)

lemma length_goBack:
  "length (navigationHistory st) \<le> 10 \<Longrightarrow> length (navigationHistory (goBack encode st)) \<le> 10"
  by (auto simp: goBack_def Let_def length_navigateTo)

lemma length_run_nav:
  "length (navigationHistory st) \<le> 10 \<Longrightarrow> length (navigationHistory (run_nav encode ops st)) \<le> 10"
  unfolding run_nav_def
proof (induction ops arbitrary: st)
  case Nil
  then show ?case by simp
next
  case (Cons x ops)
  have "length (navigationHistory (nav_step encode st x)) \<le> 10"
    using Cons.prems by (cases x) (simp_all add: length_navigateTo length_goBack)
  then show ?case
    using Cons.IH by simp
qed

lemma length_pushed: "length (pushed encode st navs) = length navs"
  by (induction encode st navs rule: pushed.induct) simp_all

lemma history_navigateTo:
  "navigationHistory (navigateTo encode v pid st) =
     (let hist = navigationHistory st @ [getCurrentRoute (location_hash st)]
      in drop (length hist - 10) hist)" if "length (navigationHistory st) \<le> 10"
proof (cases "length (navigationHistory st) = 10")
  case True
  then have "navigationHistory st \<noteq> []" by auto
  with True show ?thesis
    by (simp add: navigateTo_def Let_def drop_Suc tl_append2)
next
  case False
  with that show ?thesis
    by (simp add: navigateTo_def Let_def)
qed

lemma keep_last_append:
  "drop (length (drop (length h - n) h @ ps) - n) (drop (length h - n) h @ ps) =
     drop (length (h @ ps) - n) (h @ ps)"
proof (cases "length h \<le> n")
  case True
  then show ?thesis by simp
next
  case False
  then have "length ps + (length h - n) = length h + length ps - n"
    by simp
  with False show ?thesis
    by (simp add: add.commute)
qed

lemma history_navigate_all:
  "length (navigationHistory st) \<le> 10 \<Longrightarrow>
     navigationHistory (navigate_all encode navs st) =
       drop (length (navigationHistory st @ pushed encode st navs) - 10) (navigationHistory st @ pushed encode st navs)"
proof (induction encode st navs rule: pushed.induct)
  case (1 encode st)
  then show ?case by (simp add: navigate_all_def run_nav_def)
next
  case (2 encode st v pid navs)
  let ?st = "navigateTo encode v pid st"
  let ?h = "navigationHistory st @ [getCurrentRoute (location_hash st)]"
  have l: "length (navigationHistory ?st) \<le> 10"
    using "2.prems" by (rule length_navigateTo)
  have n: "navigationHistory ?st = drop (length ?h - 10) ?h"
    using history_navigateTo [OF "2.prems"] by (simp add: Let_def)
  have "navigationHistory (navigate_all encode ((v, pid) # navs) st) = navigationHistory (navigate_all encode navs ?st)"
    by (simp add: navigate_all_def run_nav_def)
  also have "\<dots> = drop (length (navigationHistory ?st @ pushed encode ?st navs) - 10)
      (navigationHistory ?st @ pushed encode ?st navs)"
    using "2.IH" [OF l] .
  also have "\<dots> = drop (length (?h @ pushed encode ?st navs) - 10) (?h @ pushed encode ?st navs)"
    unfolding n by (simp only: keep_last_append append_assoc)
  finally show ?case by simp
qed

text \<open>
  Claim C5. Starting from an empty history, every sequence of \<open>navigateTo\<close> and
  \<open>goBack\<close> leaves at most 10 entries; after more than 10 calls of \<open>navigateTo\<close> the
  history is exactly the last 10 of the pushed routes.
\<close>

theorem history_bounded:
  "(navigationHistory st = [] \<longrightarrow> length (navigationHistory (run_nav encode ops st)) \<le> 10)
   \<and> (navigationHistory st = [] \<and> length navs > 10 \<longrightarrow>
        navigationHistory (navigate_all encode navs st) = drop (length navs - 10) (pushed encode st navs)
        \<and> length (navigationHistory (navigate_all encode navs st)) = 10)"
proof -
  have a: "length (navigationHistory (run_nav encode ops st)) \<le> 10" if "navigationHistory st = []"
    using that by (intro length_run_nav) simp
  have b: "navigationHistory (navigate_all encode navs st) = drop (length navs - 10) (pushed encode st navs)"
    if "navigationHistory st = []"
    using that history_navigate_all [where st = st and navs = navs and encode = encode] by (simp add: length_pushed)
  have "length (navigationHistory (navigate_all encode navs st)) = 10"
    if "navigationHistory st = []" "length navs > 10"
    using that by (simp add: b length_pushed)
  with a b show ?thesis
    by blast
qed

text \<open>
  Witness for C5: eleven navigations from the start page.
\<close>

theorem history_bounded_witness:
  "navigationHistory start_page = [] \<and> length eleven_navs > 10
   \<and> length (navigationHistory (run_nav sampleEncode [GoBack, NavigateTo ''posts'' None] start_page))
       \<le> 10
   \<and> length (navigationHistory (navigate_all sampleEncode eleven_navs start_page)) = 10"
proof -
  have a: "navigationHistory start_page = []"
    by (simp add: start_page_def)
  have b: "length eleven_navs > 10"
    by (simp add: eleven_navs_def)
  show ?thesis
    using history_bounded [where st = start_page and ops = "[GoBack, NavigateTo ''posts'' None]"
        and navs = eleven_navs and encode = sampleEncode] a b
    by blast
qed

section \<open>Routes\<close>

lemma str_split_nonempty: "str_split sep s \<noteq> []"
  by (induction s) (auto split: list.splits)

lemma str_split_plain: "CHR ''/'' \<notin> set s \<Longrightarrow> str_split CHR ''/'' s = [s]"
  by (induction s) auto

lemma str_split_slash:
  "CHR ''/'' \<notin> set v \<Longrightarrow> str_split CHR ''/'' (v @ CHR ''/'' # p) = v # str_split CHR ''/'' p"
  by (induction v) auto

lemma route_of_view: "plain v \<Longrightarrow> getCurrentRoute (CHR ''#'' # v) = \<lparr>view = v, postId = None\<rparr>"
  by (simp add: getCurrentRoute_def plain_def str_split_plain)

lemma route_of_view_post:
  "plain v \<Longrightarrow> plain p \<Longrightarrow>
     getCurrentRoute (CHR ''#'' # v @ CHR ''/'' # p) = \<lparr>view = v, postId = Some p\<rparr>"
  by (simp add: getCurrentRoute_def plain_def str_split_slash str_split_plain)











lemma render_not_posts: "view (getCurrentRoute h) \<noteq> ''posts'' \<Longrightarrow> renderContent h = RenderHome"
  by (simp add: renderContent_def Let_def)

lemma view_nonempty: "view (getCurrentRoute h) \<noteq> []"
  by (simp add: getCurrentRoute_def Let_def split: list.splits)



text \<open>
  Claim C8, as amended. The fragment grammar resolves as written: \<open>#view\<close> to the view
  without a post id, \<open>#view/postId\<close> to the view with the post id. An empty fragment, and
  any fragment with an empty view component, resolves to the view \<open>home\<close>. A view
  component that is not empty is kept as the route's view, recognised or not; for a view
  other than \<open>home\<close> and \<open>posts\<close> it is \<open>renderContent\<close> that renders the home view.
\<close>

theorem route_resolution:
  "getCurrentRoute [] = \<lparr>view = ''home'', postId = None\<rparr>
   \<and> getCurrentRoute ''#'' = \<lparr>view = ''home'', postId = None\<rparr>
   \<and> (plain v \<longrightarrow> getCurrentRoute (CHR ''#'' # v) = \<lparr>view = v, postId = None\<rparr>)
   \<and> (plain v \<and> plain p \<longrightarrow>
        getCurrentRoute (CHR ''#'' # v @ CHR ''/'' # p) = \<lparr>view = v, postId = Some p\<rparr>)
   \<and> (hd (str_split CHR ''/'' (drop 1 h)) = [] \<longrightarrow> view (getCurrentRoute h) = ''home'')
   \<and> (hd (str_split CHR ''/'' (drop 1 h)) \<noteq> [] \<longrightarrow>
        view (getCurrentRoute h) = hd (str_split CHR ''/'' (drop 1 h)))
   \<and> (view (getCurrentRoute h) \<notin> {''home'', ''posts''} \<longrightarrow> renderContent h = RenderHome)
   \<and> (view (getCurrentRoute h) = ''home'' \<longrightarrow> renderContent h = RenderHome)
   \<and> renderContent ''#posts'' = RenderPostsList
   \<and> (plain p \<longrightarrow> renderContent (''#posts/'' @ p) = RenderPostDetail p)"
proof -
  have a: "getCurrentRoute [] = \<lparr>view = ''home'', postId = None\<rparr>"
    "getCurrentRoute ''#'' = \<lparr>view = ''home'', postId = None\<rparr>"
    by (simp_all add: getCurrentRoute_def)
  have b: "view (getCurrentRoute h) = ''home''" if "hd (str_split CHR ''/'' (drop 1 h)) = []"
    using that by (auto simp: getCurrentRoute_def Let_def split: list.splits)
  have c: "view (getCurrentRoute h) = hd (str_split CHR ''/'' (drop 1 h))"
    if "hd (str_split CHR ''/'' (drop 1 h)) \<noteq> []"
    using that str_split_nonempty [of "CHR ''/''" "drop 1 h"]
    by (auto simp: getCurrentRoute_def Let_def split: list.splits)
  have d: "renderContent ''#posts'' = RenderPostsList"
    by (simp add: renderContent_def getCurrentRoute_def)
  have e: "renderContent (''#posts/'' @ p) = RenderPostDetail p" if "plain p"
    using that route_of_view_post [of "''posts''" p]
    by (simp add: renderContent_def Let_def plain_def)
  have f: "renderContent h = RenderHome" if "view (getCurrentRoute h) = ''home''"
    using that by (simp add: renderContent_def Let_def)
  show ?thesis
    using a b c d e f render_not_posts [of h] route_of_view [of v] route_of_view_post [of v p]
    by simp
qed

text \<open>
  Counterexample for C8 as stated: the view component of \<open>#about\<close> is not recognised,
  and the resolved route has the view \<open>about\<close>, not \<open>home\<close>.
\<close>

theorem route_resolution_counterexample:
  "hd (str_split CHR ''/'' (drop 1 ''#about'')) \<notin> {''home'', ''posts''}
   \<and> view (getCurrentRoute ''#about'') \<noteq> ''home''"
  by (simp add: getCurrentRoute_def)

text \<open>
  Witness for the amended C8.
\<close>

theorem route_resolution_witness:
  "plain ''about'' \<and> plain ''a''
   \<and> getCurrentRoute ''#about'' = \<lparr>view = ''about'', postId = None\<rparr>
   \<and> getCurrentRoute ''#about/a'' = \<lparr>view = ''about'', postId = Some ''a''\<rparr>
   \<and> renderContent ''#about/a'' = RenderHome
   \<and> renderContent ''#posts/a'' = RenderPostDetail ''a''"
proof -
  have p: "plain ''about''" "plain ''a''"
    by (simp_all add: plain_def)
  have v: "view (getCurrentRoute ''#about/a'') \<notin> {''home'', ''posts''}"
    by (simp add: getCurrentRoute_def)
  show ?thesis
    using route_resolution [of "''about''" "''a''" "''#about/a''"] p v by simp
qed

section \<open>The loader\<close>

lemma set_map_filter_id: "set (List.map_filter f xs) = {y. \<exists>x\<in>set xs. f x = Some y}"
  by (induction xs) (auto simp: List.map_filter_def)

lemma length_map_filter: "length (List.map_filter f xs) = length (filter (\<lambda>x. f x \<noteq> None) xs)"
  by (simp add: List.map_filter_def)

lemma map_filter_map: "List.map_filter (\<lambda>p. p) (map f xs) = List.map_filter f xs"
  by (simp add: List.map_filter_def filter_map comp_def)

lemma preloadPostImages_ok:
  "(\<exists>srcs. preloadPostImages ps = Inr srcs) \<longleftrightarrow> list_all media_ok ps"
  by (induction ps) (auto simp: media_ok_def split: sum.splits)

lemma media_ok_array_sort: "list_all media_ok (array_sort cmp ps) = list_all media_ok ps"
  by (simp add: list_all_iff set_array_sort)

lemma loadPosts_indexed:
  assumes "index_json net = Some idx" and "list_all media_ok (fetched net idx)"
  shows "loadPosts Date net g =
           (array_sort (by_newest Date) (fetched net idx), array_sort (by_newest Date) (fetched net idx))"
proof -
  obtain srcs where "preloadPostImages (array_sort (by_newest Date) (fetched net idx)) = Inr srcs"
    using assms(2) preloadPostImages_ok [of "array_sort (by_newest Date) (fetched net idx)"]
    by (auto simp: media_ok_array_sort)
  then show ?thesis
    using assms(1) by (simp add: loadPosts_def fetched_def map_filter_map Let_def)
qed

lemma loadPosts_preload_throws:
  assumes "index_json net = Some idx" and "\<not> list_all media_ok (fetched net idx)"
  shows "loadPosts Date net g = legacyFallback net (array_sort (by_newest Date) (fetched net idx))"
proof -
  have "\<nexists>srcs. preloadPostImages (array_sort (by_newest Date) (fetched net idx)) = Inr srcs"
    using assms(2) preloadPostImages_ok [of "array_sort (by_newest Date) (fetched net idx)"]
    by (simp add: media_ok_array_sort)
  then obtain e where "preloadPostImages (array_sort (by_newest Date) (fetched net idx)) = Inl e"
    by (cases "preloadPostImages (array_sort (by_newest Date) (fetched net idx))") auto
  then show ?thesis
    using assms(1) by (simp add: loadPosts_def fetched_def map_filter_map Let_def)
qed

lemma loadPosts_sorted:
  assumes "index_json net = Some idx" and "list_all media_ok (fetched net idx)"
    and "\<forall>p\<in>set (fetched net idx). Date (date p) \<noteq> None"
  shows "sorted_wrt (\<lambda>x y. y \<le> x) (map (dateValue Date) (fst (loadPosts Date net g)))"
  using assms by (simp add: loadPosts_indexed sorted_array_sort_newest descending_uminus)

lemma sample_fetched: "fetched sample_net sample_index = [post_a, post_b]"
  by (simp add: fetched_def sample_net_def sample_index_def List.map_filter_def post_url_def)

text \<open>
  What \<open>loadPosts\<close> returns, case by case. When the index loads and the image data of
  the fetched posts is well-formed, it returns exactly the posts whose own fetch and
  parse succeeded, each as often as the index names it, and in descending order of date
  when their dates are valid. When the index loads and the walk over the images throws,
  it takes the legacy path with the global already assigned. When the index fails, it
  returns the legacy file; when that fails too, the empty sequence.
\<close>

lemma loadPosts_cases:
  "(index_json net = Some idx \<and> list_all media_ok (fetched net idx) \<longrightarrow>
      mset (fst (loadPosts Date net g)) = mset (fetched net idx)
      \<and> (\<forall>p. p \<in> set (fst (loadPosts Date net g)) \<longleftrightarrow>
               (\<exists>e\<in>set idx. post_json net (post_url e) = Some p))
      \<and> length (fst (loadPosts Date net g)) =
          length (filter (\<lambda>e. post_json net (post_url e) \<noteq> None) idx)
      \<and> ((\<forall>p\<in>set (fetched net idx). Date (date p) \<noteq> None) \<longrightarrow>
           sorted_wrt (\<lambda>x y. y \<le> x) (map (dateValue Date) (fst (loadPosts Date net g))))
      \<and> snd (loadPosts Date net g) = fst (loadPosts Date net g))
   \<and> (index_json net = Some idx \<and> \<not> list_all media_ok (fetched net idx) \<longrightarrow>
        loadPosts Date net g = legacyFallback net (array_sort (by_newest Date) (fetched net idx)))
   \<and> (index_json net = None \<and> legacy_json net = Some ps \<longrightarrow> loadPosts Date net g = (ps, ps))
   \<and> (index_json net = None \<and> legacy_json net = None \<longrightarrow> loadPosts Date net g = ([], g))"
proof -
  have a: "mset (fst (loadPosts Date net g)) = mset (fetched net idx)"
    if "index_json net = Some idx" "list_all media_ok (fetched net idx)"
    using that by (simp add: loadPosts_indexed mset_array_sort)
  have b: "p \<in> set (fst (loadPosts Date net g)) \<longleftrightarrow> (\<exists>e\<in>set idx. post_json net (post_url e) = Some p)"
    if "index_json net = Some idx" "list_all media_ok (fetched net idx)" for p
    using that by (simp add: loadPosts_indexed set_array_sort) (simp add: fetched_def set_map_filter_id)
  have c: "length (fst (loadPosts Date net g)) =
      length (filter (\<lambda>e. post_json net (post_url e) \<noteq> None) idx)"
    if "index_json net = Some idx" "list_all media_ok (fetched net idx)"
    using a [OF that] by (metis fetched_def length_map_filter size_mset)
  have d: "snd (loadPosts Date net g) = fst (loadPosts Date net g)"
    if "index_json net = Some idx" "list_all media_ok (fetched net idx)"
    using that by (simp add: loadPosts_indexed)
  have e: "loadPosts Date net g = (ps, ps)" if "index_json net = None" "legacy_json net = Some ps"
    using that by (simp add: loadPosts_def legacyFallback_def)
  have f: "loadPosts Date net g = ([], g)" if "index_json net = None" "legacy_json net = None"
    using that by (simp add: loadPosts_def legacyFallback_def)
  show ?thesis
    using a b c d e f loadPosts_sorted [of net idx Date g] loadPosts_preload_throws [of net idx Date g]
    by blast
qed

lemma loadPosts_cases_sample:
  "index_json sample_net = Some sample_index
   \<and> list_all media_ok (fetched sample_net sample_index)
   \<and> loadPosts sampleDate sample_net [] = ([post_b, post_a], [post_b, post_a])
   \<and> loadPosts sampleDate legacy_net [] = ([post_a], [post_a])
   \<and> loadPosts sampleDate offline_net [] = ([], [])"
proof -
  have i: "index_json sample_net = Some sample_index"
    by (simp add: sample_net_def)
  have m: "list_all media_ok (fetched sample_net sample_index)"
    by (simp add: sample_fetched media_ok_def post_image_sources_def gallery_sources_def
        post_a_def post_b_def)
  have s: "array_sort (by_newest sampleDate) [post_a, post_b] = [post_b, post_a]"
    by (simp add: array_sort_def by_newest_def date_diff_def cmp_value_def sampleDate_def
        post_a_def post_b_def)
  have a: "loadPosts sampleDate sample_net [] = ([post_b, post_a], [post_b, post_a])"
    using loadPosts_indexed [OF i m, of sampleDate "[]"] by (simp add: sample_fetched s)
  have b: "loadPosts sampleDate legacy_net [] = ([post_a], [post_a])"
    by (simp add: loadPosts_def legacyFallback_def legacy_net_def)
  have c: "loadPosts sampleDate offline_net [] = ([], [])"
    by (simp add: loadPosts_def legacyFallback_def offline_net_def)
  show ?thesis
    using i m a b c by (intro conjI)
qed

text \<open>
  Claim C7 fails on the code. The index names three posts; post a and post b are
  fetched and parsed, the third is not. Best-effort aggregation returns b and a. But
  the gallery property of post a is not an array, so the walk of \<open>preloadPostImages\<close>
  throws inside the \<open>try\<close> block, the \<open>catch\<close> block takes the legacy path, and with no
  legacy file \<open>loadPosts\<close> returns the empty sequence: one post's image data costs all
  posts.
\<close>

theorem loadPosts_preload_failure:
  "index_json bad_gallery_net = Some sample_index
   \<and> fetched bad_gallery_net sample_index = [post_bad, post_b]
   \<and> post_image_sources post_bad = Inl TypeError
   \<and> loadPosts sampleDate bad_gallery_net [] = ([], [post_b, post_bad])"
proof -
  have i: "index_json bad_gallery_net = Some sample_index"
    by (simp add: bad_gallery_net_def)
  have f: "fetched bad_gallery_net sample_index = [post_bad, post_b]"
    by (simp add: fetched_def bad_gallery_net_def sample_index_def List.map_filter_def post_url_def)
  have t: "post_image_sources post_bad = Inl TypeError"
    by (simp add: post_image_sources_def gallery_sources_def post_bad_def post_a_def)
  then have m: "\<not> list_all media_ok (fetched bad_gallery_net sample_index)"
    by (simp add: f media_ok_def)
  have s: "array_sort (by_newest sampleDate) [post_bad, post_b] = [post_b, post_bad]"
    by (simp add: array_sort_def by_newest_def date_diff_def cmp_value_def sampleDate_def
        post_bad_def post_a_def post_b_def)
  have "loadPosts sampleDate bad_gallery_net [] = ([], [post_b, post_bad])"
    using loadPosts_preload_throws [OF i m, of sampleDate "[]"]
    by (simp add: f s legacyFallback_def) (simp add: bad_gallery_net_def)
  with i f t show ?thesis
    by (intro conjI)
qed

section \<open>The gallery viewer\<close>

lemma preload_loaded:
  "loadedGalleryImages (preloadGalleryImages loads thumb st) =
     map (\<lambda>img. substitute (img, loads (src img))) (galleryImages st)"
  by (simp add: preloadGalleryImages_def Let_def comp_def split: option.splits)

lemma viewable_filter:
  "\<forall>img\<in>set g. \<not> isPlaceholder img \<Longrightarrow>
     filter (\<lambda>img. \<not> isPlaceholder img) (map (\<lambda>img. substitute (img, loads (src img))) g) =
       filter (\<lambda>img. loads (src img)) g"
  by (induction g) (auto simp: substitute_def)

lemma openGallery_closed:
  "filter (\<lambda>img. \<not> isPlaceholder img) (loadedGalleryImages st) = [] \<Longrightarrow> openGallery i st = st"
  by (simp add: openGallery_def)

lemma openGallery_inv:
  assumes "filter (\<lambda>img. \<not> isPlaceholder img) (loadedGalleryImages st) = vs" "vs \<noteq> []" "\<not> threw st"
  shows "viewer_inv vs (openGallery i st)"
proof -
  have "0 < int (length vs)"
    using assms(2) by simp
  then show ?thesis
    using assms by (simp add: openGallery_def updateGalleryDisplay_def viewer_inv_def Let_def)
qed

lemma js_rem_range: "0 \<le> a \<Longrightarrow> 0 < n \<Longrightarrow> 0 \<le> js_rem a n \<and> js_rem a n < n"
  by (simp add: js_rem_def)

lemma nextImage_inv:
  assumes "viewer_inv vs st" "vs \<noteq> []"
  shows "viewer_inv vs (nextImage st)"
proof -
  have "0 \<le> currentImageIndex st + 1" "0 < int (length vs)"
    using assms by (simp_all add: viewer_inv_def)
  from js_rem_range [OF this] show ?thesis
    using assms by (simp add: nextImage_def updateGalleryDisplay_def viewer_inv_def Let_def)
qed

lemma previousImage_inv:
  assumes "viewer_inv vs st" "vs \<noteq> []"
  shows "viewer_inv vs (previousImage st)"
proof -
  have "0 \<le> currentImageIndex st - 1 + int (length vs)" "0 < int (length vs)"
    using assms by (simp_all add: viewer_inv_def)
  from js_rem_range [OF this] show ?thesis
    using assms by (simp add: previousImage_def updateGalleryDisplay_def viewer_inv_def Let_def)
qed

lemma run_viewer_inv:
  "viewer_inv vs st \<Longrightarrow> vs \<noteq> [] \<Longrightarrow> viewer_inv vs (run_viewer ops st)"
  unfolding run_viewer_def
proof (induction ops arbitrary: st)
  case Nil
  then show ?case by simp
next
  case (Cons x ops)
  have "viewer_inv vs (viewer_step st x)"
    using Cons.prems by (cases x) (simp_all add: nextImage_inv previousImage_inv)
  then show ?case
    using Cons by simp
qed

lemma viewer_inv_displayed:
  assumes "viewer_inv vs st"
  shows "\<exists>img. displayed st = Some img \<and> img \<in> set vs"
proof -
  have "0 \<le> currentImageIndex st" "currentImageIndex st < int (length vs)"
    using assms by (simp_all add: viewer_inv_def)
  then have "nat (currentImageIndex st) < length vs"
    by linarith
  then have "vs ! nat (currentImageIndex st) \<in> set vs"
    by (rule nth_mem)
  then show ?thesis
    using assms by (simp add: viewer_inv_def)
qed

text \<open>
  Claim C9. Let the gallery \<open>g\<close> of a post be preloaded. If no image loaded, the viewer
  does not open. Otherwise it opens, its navigable images are exactly the images of
  \<open>g\<close> that loaded, in their order, and after any sequence of \<open>nextImage\<close> and
  \<open>previousImage\<close> the image shown is one of them and not a placeholder.
\<close>

theorem viewer_only_loaded_images:
  assumes "galleryImages st = g" and "\<forall>img\<in>set g. \<not> isPlaceholder img" and "\<not> threw st"
  shows "(filter (\<lambda>img. loads (src img)) g = [] \<longrightarrow>
            openGallery i (preloadGalleryImages loads thumb st) = preloadGalleryImages loads thumb st)
         \<and> (filter (\<lambda>img. loads (src img)) g \<noteq> [] \<longrightarrow>
              \<not> modal_hidden (run_viewer ops (openGallery i (preloadGalleryImages loads thumb st)))
              \<and> \<not> threw (run_viewer ops (openGallery i (preloadGalleryImages loads thumb st)))
              \<and> currentGalleryImages (run_viewer ops (openGallery i (preloadGalleryImages loads thumb st)))
                  = filter (\<lambda>img. loads (src img)) g
              \<and> (\<exists>img. displayed (run_viewer ops (openGallery i (preloadGalleryImages loads thumb st)))
                          = Some img
                        \<and> img \<in> set g \<and> loads (src img) \<and> \<not> isPlaceholder img))"
proof -
  let ?p = "preloadGalleryImages loads thumb st"
  let ?vs = "filter (\<lambda>img. loads (src img)) g"
  have v: "filter (\<lambda>img. \<not> isPlaceholder img) (loadedGalleryImages ?p) = ?vs"
    using assms(1,2) by (simp add: preload_loaded viewable_filter)
  have t: "\<not> threw ?p"
    using assms(3) by (simp add: preloadGalleryImages_def Let_def split: option.splits)
  have closed: "openGallery i ?p = ?p" if "?vs = []"
    using that v by (simp add: openGallery_closed)
  have opened: "viewer_inv ?vs (run_viewer ops (openGallery i ?p))" if "?vs \<noteq> []"
    using that by (intro run_viewer_inv openGallery_inv v t)
  have shown: "\<exists>img. displayed (run_viewer ops (openGallery i ?p)) = Some img
      \<and> img \<in> set g \<and> loads (src img) \<and> \<not> isPlaceholder img" if "?vs \<noteq> []"
    using viewer_inv_displayed [OF opened [OF that]] assms(2) by auto
  show ?thesis
    using closed opened shown by (auto simp: viewer_inv_def)
qed

text \<open>
  Witness for C9: a gallery of two images, the second of which fails to load.
\<close>

theorem viewer_only_loaded_images_witness:
  "galleryImages sample_renderer = sample_gallery
   \<and> list_all (\<lambda>img. \<not> isPlaceholder img) sample_gallery
   \<and> \<not> threw sample_renderer
   \<and> filter (\<lambda>img. sample_loads (src img)) sample_gallery \<noteq> []
   \<and> currentGalleryImages
       (run_viewer [NextImage, PreviousImage]
          (openGallery 1 (preloadGalleryImages sample_loads None sample_renderer))) =
       [\<lparr>src = ''img/one.png'', alt = Some ''one'', caption = None, isPlaceholder = False\<rparr>]
   \<and> \<not> modal_hidden
       (run_viewer [NextImage, PreviousImage]
          (openGallery 1 (preloadGalleryImages sample_loads None sample_renderer)))"
proof -
  have g: "galleryImages sample_renderer = sample_gallery"
    by (simp add: sample_renderer_def)
  have p: "\<forall>img\<in>set sample_gallery. \<not> isPlaceholder img"
    by (simp add: sample_gallery_def)
  have t: "\<not> threw sample_renderer"
    by (simp add: sample_renderer_def new_PostRenderer_def)
  have f: "filter (\<lambda>img. sample_loads (src img)) sample_gallery =
      [\<lparr>src = ''img/one.png'', alt = Some ''one'', caption = None, isPlaceholder = False\<rparr>]"
    by (simp add: sample_gallery_def sample_loads_def)
  then have ne: "filter (\<lambda>img. sample_loads (src img)) sample_gallery \<noteq> []"
    by simp
  note v = viewer_only_loaded_images [OF g p t, of sample_loads 1 None "[NextImage, PreviousImage]"]
  have a: "currentGalleryImages
       (run_viewer [NextImage, PreviousImage]
          (openGallery 1 (preloadGalleryImages sample_loads None sample_renderer))) =
       filter (\<lambda>img. sample_loads (src img)) sample_gallery"
    using v ne by blast
  have b: "\<not> modal_hidden
       (run_viewer [NextImage, PreviousImage]
          (openGallery 1 (preloadGalleryImages sample_loads None sample_renderer)))"
    using v ne by blast
  have p': "list_all (\<lambda>img. \<not> isPlaceholder img) sample_gallery"
    using p by (simp add: list_all_iff)
  show ?thesis
    using g p' t ne a [unfolded f] b by (intro conjI)
qed

end
